theory Spec2Isabelle
  imports Main "HOL-Library.Word" "HOL-Library.Monad_Syntax"
begin

unbundle bit_operations_syntax

section \<open>Memory\<close>

text \<open>
  The allocator of \<^verbatim>\<open>mm.c\<close> works on one flat, byte-addressed memory. Addresses are
  natural numbers, \<open>0\<close> is \<^verbatim>\<open>NULL\<close>; \<^verbatim>\<open>size_t\<close> is a 64-bit word, the header and
  footer words are 32-bit words (\<^verbatim>\<open>unsigned int\<close>), both with their wrap-around.
  A 32-bit access reads or writes four bytes, little-endian; a pointer field of the
  free list (\<^verbatim>\<open>PTRS *\<close>, 8 bytes) is two such words.
\<close>

type_synonym addr = nat
type_synonym memory = "addr \<Rightarrow> 8 word"

definition load32 :: "memory \<Rightarrow> addr \<Rightarrow> 32 word" where
  "load32 m p = ucast (m p) OR push_bit 8 (ucast (m (p + 1)))
     OR push_bit 16 (ucast (m (p + 2))) OR push_bit 24 (ucast (m (p + 3)))"

definition store32 :: "memory \<Rightarrow> addr \<Rightarrow> 32 word \<Rightarrow> memory" where
  "store32 m p v = m(p := ucast v, p + 1 := ucast (drop_bit 8 v),
     p + 2 := ucast (drop_bit 16 v), p + 3 := ucast (drop_bit 24 v))"

definition load64 :: "memory \<Rightarrow> addr \<Rightarrow> 64 word" where
  "load64 m p = ucast (load32 m p) OR push_bit 32 (ucast (load32 m (p + 4)))"

definition store64 :: "memory \<Rightarrow> addr \<Rightarrow> 64 word \<Rightarrow> memory" where
  "store64 m p v = store32 (store32 m p (ucast v)) (p + 4) (ucast (drop_bit 32 v))"

text \<open>\<^verbatim>\<open>memcpy\<close> and \<^verbatim>\<open>memset\<close> of the C library, on \<open>n\<close> bytes. The copy reads the
  memory as it was before the call.\<close>

definition memcpy :: "addr \<Rightarrow> addr \<Rightarrow> nat \<Rightarrow> memory \<Rightarrow> memory" where
  "memcpy dst src n m = (\<lambda>a. if dst \<le> a \<and> a < dst + n then m (src + (a - dst)) else m a)"

definition memset :: "addr \<Rightarrow> 8 word \<Rightarrow> nat \<Rightarrow> memory \<Rightarrow> memory" where
  "memset p c n m = (\<lambda>a. if p \<le> a \<and> a < p + n then c else m a)"

section \<open>The allocator state\<close>

text \<open>
  The globals of \<^verbatim>\<open>mm.c\<close> (\<^verbatim>\<open>heap_listp\<close>, \<^verbatim>\<open>dl_start\<close>, \<^verbatim>\<open>dl_end\<close>), the memory, and the
  arena of \<^verbatim>\<open>memlib\<close>: its first byte \<open>mem_heap\<close>, its break \<open>mem_brk\<close> (one past the
  last byte in use) and its limit \<open>mem_max_addr\<close>.
\<close>

record state =
  mem :: memory
  mem_heap :: addr
  mem_brk :: addr
  mem_max_addr :: addr
  heap_listp :: addr
  dl_start :: addr
  dl_end :: addr

text \<open>
  Modelled from the spec: \<^verbatim>\<open>memlib.c\<close> is not part of the sources. The spec gives the
  arena growth interface as \<^verbatim>\<open>growBy(nBytes) -> pointer | failure\<close>, which extends the
  arena and returns the start of the newly appended region, and \<^verbatim>\<open>lowBound()\<close>,
  \<^verbatim>\<open>highBound()\<close> for containment queries. Growth fails when the arena would pass its
  limit; \<open>None\<close> is the failure (\<^verbatim>\<open>(void *)-1\<close> in C).
\<close>

definition mem_sbrk :: "nat \<Rightarrow> state \<Rightarrow> (addr \<times> state) option" where
  "mem_sbrk incr s =
     (if mem_brk s + incr > mem_max_addr s then None
      else Some (mem_brk s, s\<lparr>mem_brk := mem_brk s + incr\<rparr>))"

definition mem_heap_lo :: "state \<Rightarrow> addr" where
  "mem_heap_lo s = mem_heap s"

definition mem_heap_hi :: "state \<Rightarrow> addr" where
  "mem_heap_hi s = mem_brk s - 1"

section \<open>Constants and macros\<close>

definition WSIZE :: nat where "WSIZE = 4"
definition DSIZE :: nat where "DSIZE = 8"

text \<open>\<^verbatim>\<open>MINCHUNKSIZE\<close> is \<^verbatim>\<open>sizeof(uint32_t) + 2*sizeof(void*) + sizeof(uint32_t)\<close>, with
  8-byte pointers.\<close>

definition MINCHUNKSIZE :: "64 word" where "MINCHUNKSIZE = 1 * 4 + 2 * 8 + 1 * 4"

definition PACK :: "64 word \<Rightarrow> 64 word \<Rightarrow> 64 word" where
  "PACK sz alloc = sz OR alloc"

definition GET :: "state \<Rightarrow> addr \<Rightarrow> 32 word" where
  "GET s p = load32 (mem s) p"

text \<open>\<^verbatim>\<open>PUT\<close> stores through an \<^verbatim>\<open>unsigned int *\<close>: the value is cut to 32 bits.\<close>

definition PUT :: "addr \<Rightarrow> 64 word \<Rightarrow> state \<Rightarrow> state" where
  "PUT p val s = s\<lparr>mem := store32 (mem s) p (ucast val)\<rparr>"

definition GET_SIZE :: "state \<Rightarrow> addr \<Rightarrow> 32 word" where
  "GET_SIZE s p = GET s p AND NOT 7"

definition GET_ALLOC :: "state \<Rightarrow> addr \<Rightarrow> 32 word" where
  "GET_ALLOC s p = GET s p AND 1"

definition HDRP :: "addr \<Rightarrow> addr" where
  "HDRP bp = bp - WSIZE"

definition FTRP :: "state \<Rightarrow> addr \<Rightarrow> addr" where
  "FTRP s bp = bp + unat (GET_SIZE s (HDRP bp)) - DSIZE"

definition NEXT_BLKP :: "state \<Rightarrow> addr \<Rightarrow> addr" where
  "NEXT_BLKP s bp = bp + unat (GET_SIZE s (bp - WSIZE))"

definition PREV_BLKP :: "state \<Rightarrow> addr \<Rightarrow> addr" where
  "PREV_BLKP s bp = bp - unat (GET_SIZE s (bp - DSIZE))"

definition ALIGN :: "64 word \<Rightarrow> 64 word" where
  "ALIGN sz = (sz + 7) AND NOT 7"

text \<open>The helper \<^verbatim>\<open>align(p, w)\<close> on \<^verbatim>\<open>uintptr_t\<close>, \<^verbatim>\<open>aligned\<close> and \<^verbatim>\<open>in_heap\<close>.\<close>

definition align :: "addr \<Rightarrow> 64 word \<Rightarrow> addr" where
  "align p w = unat ((word_of_nat p + (w - 1)) AND NOT (w - 1))"

definition aligned :: "addr \<Rightarrow> bool" where
  "aligned p = (align p 8 = p)"

definition in_heap :: "state \<Rightarrow> addr \<Rightarrow> bool" where
  "in_heap s p = (p \<le> mem_heap_hi s \<and> p \<ge> mem_heap_lo s)"

section \<open>The free list\<close>

text \<open>The payload of a free block holds \<^verbatim>\<open>struct POINTERS\<close>: \<^verbatim>\<open>prev\<close> at offset 0 and
  \<^verbatim>\<open>next\<close> at offset 8.\<close>

definition get_prev :: "state \<Rightarrow> addr \<Rightarrow> addr" where
  "get_prev s fb = unat (load64 (mem s) fb)"

definition get_next :: "state \<Rightarrow> addr \<Rightarrow> addr" where
  "get_next s fb = unat (load64 (mem s) (fb + 8))"

definition set_prev :: "addr \<Rightarrow> addr \<Rightarrow> state \<Rightarrow> state" where
  "set_prev fb v s = s\<lparr>mem := store64 (mem s) fb (word_of_nat v)\<rparr>"

definition set_next :: "addr \<Rightarrow> addr \<Rightarrow> state \<Rightarrow> state" where
  "set_next fb v s = s\<lparr>mem := store64 (mem s) (fb + 8) (word_of_nat v)\<rparr>"

definition add_freeblock :: "addr \<Rightarrow> state \<Rightarrow> state" where
  "add_freeblock bp s =
     (if dl_start s \<noteq> 0 then
        let s = set_prev bp (dl_end s) s;
            s = set_next (dl_end s) bp s;
            s = set_next bp 0 s
        in s\<lparr>dl_end := bp\<rparr>
      else
        let s = set_next bp 0 s;
            s = set_prev bp 0 s
        in s\<lparr>dl_start := bp, dl_end := bp\<rparr>)"

definition remove_freeblock :: "addr \<Rightarrow> state \<Rightarrow> state" where
  "remove_freeblock fb s =
     (if dl_start s = dl_end s then s\<lparr>dl_start := 0, dl_end := 0\<rparr>
      else if dl_start s = fb then
        let s = s\<lparr>dl_start := get_next s fb\<rparr>
        in set_prev (dl_start s) 0 s
      else if dl_end s = fb then
        let s = s\<lparr>dl_end := get_prev s fb\<rparr>
        in set_next (dl_end s) 0 s
      else
        let s = set_next (get_prev s fb) (get_next s fb) s
        in set_prev (get_next s fb) (get_prev s fb) s)"

section \<open>Coalescing, placement and the fit search\<close>

text \<open>
  \<^verbatim>\<open>coalesce\<close> calls itself, on the previous block or on the same block after a merge;
  nothing bounds the recursion on a damaged heap, so the result is an option and \<open>None\<close>
  stands for a call that does not return.
\<close>

partial_function (option) coalesce :: "addr \<Rightarrow> state \<Rightarrow> (addr \<times> state) option" where
  "coalesce bp s =
     (let prev_alloc = GET_ALLOC s (HDRP (PREV_BLKP s bp));
          next_alloc = GET_ALLOC s (HDRP (NEXT_BLKP s bp))
      in if prev_alloc \<noteq> 0 \<and> next_alloc \<noteq> 0 then Some (bp, s)
         else
           let sz = (ucast (GET_SIZE s (HDRP bp)) :: 64 word)
           in if prev_alloc = 0 then coalesce (PREV_BLKP s bp) s
              else
                let s = remove_freeblock (NEXT_BLKP s bp) s;
                    sz = sz + ucast (GET_SIZE s (HDRP (NEXT_BLKP s bp)));
                    s = PUT (HDRP bp) (PACK sz 0) s;
                    s = PUT (FTRP s bp) (PACK sz 0) s
                in if GET_ALLOC s (HDRP (NEXT_BLKP s bp)) = 0 then coalesce bp s
                   else Some (bp, s))"

text \<open>\<^verbatim>\<open>extend_heap\<close> returns \<^verbatim>\<open>NULL\<close> (address 0) when the arena cannot grow.\<close>

definition extend_heap :: "64 word \<Rightarrow> state \<Rightarrow> (addr \<times> state) option" where
  "extend_heap words s =
     (let sz = (if words mod 2 \<noteq> 0 then (words + 1) * 4 else words * 4)
      in case mem_sbrk (unat sz) s of
           None \<Rightarrow> Some (0, s)
         | Some (bp, s) \<Rightarrow>
             let s = PUT (HDRP bp) (PACK sz 0) s;
                 s = PUT (FTRP s bp) (PACK sz 0) s;
                 s = PUT (HDRP (NEXT_BLKP s bp)) (PACK 0 1) s;
                 s = add_freeblock bp s
             in coalesce bp s)"

definition shrink :: "addr \<Rightarrow> 64 word \<Rightarrow> state \<Rightarrow> state option" where
  "shrink bp asize s =
     (let csize = (ucast (GET_SIZE s (HDRP bp)) :: 64 word)
      in if csize < asize then
           let s = PUT (HDRP bp) (PACK asize 1) s;
               s = PUT (FTRP s bp) (PACK asize 1) s;
               bp = NEXT_BLKP s bp;
               s = PUT (HDRP bp) (PACK (csize - asize) 0) s;
               s = PUT (FTRP s bp) (PACK (csize - asize) 0) s;
               s = add_freeblock bp s
           in map_option snd (coalesce bp s)
         else Some s)"

definition place :: "addr \<Rightarrow> 64 word \<Rightarrow> state \<Rightarrow> state option" where
  "place bp asize s =
     (let csize = (ucast (GET_SIZE s (HDRP bp)) :: 64 word)
      in if csize - asize \<ge> MINCHUNKSIZE then
           let s = remove_freeblock bp s;
               s = PUT (HDRP bp) (PACK asize 1) s;
               s = PUT (FTRP s bp) (PACK asize 1) s;
               bp = NEXT_BLKP s bp;
               s = PUT (HDRP bp) (PACK (csize - asize) 0) s;
               s = PUT (FTRP s bp) (PACK (csize - asize) 0) s;
               s = add_freeblock bp s
           in map_option snd (coalesce bp s)
         else
           let s = remove_freeblock bp s;
               s = PUT (HDRP bp) (PACK csize 1) s;
               s = PUT (FTRP s bp) (PACK csize 1) s
           in Some s)"

text \<open>
  The loop of \<^verbatim>\<open>find_fit\<close>, from the block \<open>bp\<close> on. The statements after the
  \<^verbatim>\<open>return bp\<close> in the loop body are never reached, so \<^verbatim>\<open>best\<close> is still \<^verbatim>\<open>NULL\<close> when the
  loop ends. The loop does not end on a cyclic list without a fit: \<open>None\<close>.
\<close>

partial_function (option) find_fit_from :: "64 word \<Rightarrow> addr \<Rightarrow> state \<Rightarrow> addr option" where
  "find_fit_from asize bp s =
     (if bp \<noteq> 0 then
        if asize \<le> ucast (GET_SIZE s (HDRP bp)) then Some bp
        else find_fit_from asize (get_next s bp) s
      else Some 0)"

definition find_fit :: "64 word \<Rightarrow> state \<Rightarrow> addr option" where
  "find_fit asize s = find_fit_from asize (dl_start s) s"

section \<open>The public operations\<close>

text \<open>
  The operations are modelled as compiled with \<^verbatim>\<open>NDEBUG\<close>, where \<^verbatim>\<open>checkheap(verbose)\<close>
  and \<^verbatim>\<open>dbg_printf\<close> expand to nothing; the debug macro is \<open>checkheap\<close> below.
  When \<^verbatim>\<open>mem_sbrk\<close> fails in \<^verbatim>\<open>mm_init\<close>, \<^verbatim>\<open>heap_listp\<close> keeps the value \<^verbatim>\<open>(void *)-1\<close>.
\<close>

definition mm_init :: "state \<Rightarrow> (int \<times> state) option" where
  "mm_init s =
     (let s = s\<lparr>dl_start := 0, dl_end := 0\<rparr>
      in case mem_sbrk (4 * WSIZE) s of
           None \<Rightarrow> Some (- 1, s\<lparr>heap_listp := 2 ^ 64 - 1\<rparr>)
         | Some (p, s) \<Rightarrow>
             let s = s\<lparr>heap_listp := p\<rparr>;
                 s = PUT (heap_listp s) 0 s;
                 s = PUT (heap_listp s + 1 * WSIZE) (PACK 8 1) s;
                 s = PUT (heap_listp s + 2 * WSIZE) (PACK 8 1) s;
                 s = PUT (heap_listp s + 3 * WSIZE) (PACK 0 1) s
             in do {
               (bp, s) \<leftarrow> extend_heap (MINCHUNKSIZE div 4) s;
               Some (0, s\<lparr>heap_listp := bp\<rparr>)
             })"

text \<open>The adjusted block size of \<^verbatim>\<open>mm_malloc\<close>: the request is raised to \<^verbatim>\<open>2 * DSIZE\<close>
  first.\<close>

definition malloc_asize :: "64 word \<Rightarrow> 64 word" where
  "malloc_asize sz =
     (let sz = (if sz < 2 * 8 then 2 * 8 else sz)
      in 1 * 4 + ALIGN sz + 1 * 4)"

definition mm_malloc :: "64 word \<Rightarrow> state \<Rightarrow> (addr \<times> state) option" where
  "mm_malloc sz s =
     (if sz = 0 then Some (0, s)
      else
        let asize = malloc_asize sz
        in do {
          bp \<leftarrow> find_fit asize s;
          if bp \<noteq> 0 then do { s \<leftarrow> place bp asize s; Some (bp, s) }
          else
            let extendsize = (ucast (if asize > 512 then asize else 512) :: 32 word)
            in do {
              (bp, s) \<leftarrow> extend_heap (ucast (extendsize div 4)) s;
              if bp = 0 then Some (0, s)
              else do { s \<leftarrow> place bp asize s; Some (bp, s) }
            }
        })"

definition mm_free :: "addr \<Rightarrow> state \<Rightarrow> state option" where
  "mm_free bp s =
     (if bp = 0 then Some s
      else
        let sz = (ucast (GET_SIZE s (HDRP bp)) :: 64 word);
            s = PUT (HDRP bp) (PACK sz 0) s;
            s = PUT (FTRP s bp) (PACK sz 0) s;
            s = add_freeblock bp s
        in map_option snd (coalesce bp s))"

text \<open>The adjusted size of \<^verbatim>\<open>mm_realloc\<close>: three assignments to \<^verbatim>\<open>asize\<close>, the last one
  from \<^verbatim>\<open>size\<close>.\<close>

definition realloc_asize :: "64 word \<Rightarrow> 64 word" where
  "realloc_asize sz =
     (let asize = sz;
          asize = (if asize < 2 * 8 then 2 * 8 else asize);
          asize = 1 * 4 + ALIGN sz + 1 * 4
      in asize)"

text \<open>The last part of \<^verbatim>\<open>mm_realloc\<close>: a new block, the copy, and the release of the old
  block.\<close>

definition realloc_copy :: "addr \<Rightarrow> 64 word \<Rightarrow> 64 word \<Rightarrow> state \<Rightarrow> (addr \<times> state) option" where
  "realloc_copy ptr sz oldsize s =
     do {
       (newptr, s) \<leftarrow> mm_malloc sz s;
       if newptr = 0 then Some (0, s)
       else
         let oldsize = (if sz < oldsize then sz else oldsize);
             s = s\<lparr>mem := memcpy newptr ptr (unat oldsize) (mem s)\<rparr>
         in do { s \<leftarrow> mm_free ptr s; Some (newptr, s) }
     }"

text \<open>The sum of the two sizes in the growing branch is a sum of \<^verbatim>\<open>unsigned int\<close>s.\<close>

definition mm_realloc :: "addr \<Rightarrow> 64 word \<Rightarrow> state \<Rightarrow> (addr \<times> state) option" where
  "mm_realloc ptr sz s =
     (if sz = 0 then do { s \<leftarrow> mm_free ptr s; Some (0, s) }
      else if ptr = 0 then mm_malloc sz s
      else
        let oldsize = (ucast (GET_SIZE s (HDRP ptr)) :: 64 word);
            asize = realloc_asize sz
        in if asize < oldsize then do { s \<leftarrow> shrink ptr asize s; Some (ptr, s) }
           else if GET_ALLOC s (HDRP (NEXT_BLKP s ptr)) = 0 then
             do {
               (_, s) \<leftarrow> coalesce (NEXT_BLKP s ptr) s;
               let new_size = (ucast (GET_SIZE s (HDRP (NEXT_BLKP s ptr)) + GET_SIZE s (HDRP ptr)) :: 64 word)
               in if new_size \<ge> sz then
                    let s = remove_freeblock (NEXT_BLKP s ptr) s;
                        s = PUT (HDRP ptr) (PACK new_size 1) s;
                        s = PUT (FTRP s ptr) (PACK new_size 1) s
                    in Some (ptr, s)
                  else realloc_copy ptr sz oldsize s
             }
           else realloc_copy ptr sz oldsize s)"

text \<open>
  The bytes that the process may touch are those of the arena that \<^verbatim>\<open>memlib\<close> obtained,
  from \<open>mem_heap\<close> up to \<open>mem_max_addr\<close>. \<^verbatim>\<open>NULL\<close> is outside, and so is every address
  below the arena, where the truncated subtraction of the model puts a pointer that
  wrapped around. The model guards with it the fill of \<^verbatim>\<open>calloc\<close> and the reads of the heap
  checker; the other loads and stores are total functions of the memory.
\<close>

definition in_arena :: "state \<Rightarrow> addr \<Rightarrow> nat \<Rightarrow> bool" where
  "in_arena s p n \<longleftrightarrow> 0 < p \<and> mem_heap s \<le> p \<and> p + n \<le> mem_max_addr s"

text \<open>
  \<^verbatim>\<open>calloc\<close> passes the result of \<^verbatim>\<open>mm_malloc\<close> to \<^verbatim>\<open>memset\<close> without a test. A fill that
  leaves the arena, through \<^verbatim>\<open>NULL\<close> or past the end, kills the process: the call does
  not return, which is \<open>None\<close> here as well; \<^verbatim>\<open>memset\<close> on no bytes stores nothing.
\<close>

definition memset_through :: "addr \<Rightarrow> 8 word \<Rightarrow> 64 word \<Rightarrow> state \<Rightarrow> state option" where
  "memset_through p c n s =
     (if n \<noteq> 0 \<and> \<not> in_arena s p (unat n) then None
      else Some (s\<lparr>mem := memset p c (unat n) (mem s)\<rparr>))"

definition calloc :: "64 word \<Rightarrow> 64 word \<Rightarrow> state \<Rightarrow> (addr \<times> state) option" where
  "calloc nmemb sz s =
     (let bytes = nmemb * sz
      in do {
        (newptr, s) \<leftarrow> mm_malloc bytes s;
        s \<leftarrow> memset_through newptr 0 bytes s;
        Some (newptr, s)
      })"

section \<open>The heap checker\<close>

text \<open>What \<^verbatim>\<open>mm_checkheap\<close>, \<^verbatim>\<open>mm_checkblock\<close> and \<^verbatim>\<open>printblock\<close> print, one constructor for
  each \<^verbatim>\<open>printf\<close> of the source.\<close>

datatype diag =
    BadPrologueHeader
  | BadPrologueFooter
  | BadEpilogueHeader
  | BlockTooSmall
  | NotAligned addr
  | OutsideHeap
  | HeaderFooterMismatch
  | PrevBlockFree
  | NextBlockFree
  | PrevInconsistent
  | NextInconsistent
  | NotInHeap
  | CountMismatch
  | PrintBlock addr "32 word" "32 word" "32 word" "32 word"

text \<open>
  The checker reads headers, footers and list links of a heap that may be damaged. A
  read outside the arena has no result: \<open>guard\<close> stands before each read of the source,
  with the number of bytes read, and yields \<open>None\<close> for a read that kills the process.
\<close>

definition guard :: "state \<Rightarrow> nat \<Rightarrow> addr \<Rightarrow> unit option" where
  "guard s n p = (if in_arena s p n then Some () else None)"

definition printblock :: "state \<Rightarrow> addr \<Rightarrow> diag list option" where
  "printblock s bp =
     do {
       _ \<leftarrow> guard s 4 (HDRP bp);
       _ \<leftarrow> guard s 4 (FTRP s bp);
       let hsize = GET_SIZE s (HDRP bp);
           halloc = GET_ALLOC s (HDRP bp);
           fsize = GET_SIZE s (FTRP s bp);
           falloc = GET_ALLOC s (FTRP s bp)
       in Some [PrintBlock bp hsize halloc fsize falloc]
     }"

text \<open>In \<^verbatim>\<open>mm_checkblock\<close> the header is read first, the footer at point 8; for a free
  block \<^verbatim>\<open>PREV_BLKP\<close> reads the footer before the block, and the headers of the two
  neighbours are read when \<^verbatim>\<open>in_heap\<close> holds of them.\<close>

definition mm_checkblock :: "state \<Rightarrow> addr \<Rightarrow> diag list option" where
  "mm_checkblock s bp =
     do {
       _ \<leftarrow> guard s 4 (HDRP bp);
       _ \<leftarrow> guard s 4 (FTRP s bp);
       let out =
         (if GET_SIZE s (HDRP bp) < 24 then [BlockTooSmall] else []) @
         (if \<not> aligned bp then [NotAligned bp] else []) @
         (if \<not> in_heap s (HDRP bp) \<or> \<not> in_heap s (FTRP s bp) then [OutsideHeap] else []) @
         (if GET s (HDRP bp) \<noteq> GET s (FTRP s bp) then [HeaderFooterMismatch] else [])
       in
         if GET_ALLOC s (HDRP bp) = 0 then
           do {
             _ \<leftarrow> guard s 4 (bp - DSIZE);
             _ \<leftarrow> (if in_heap s (HDRP (PREV_BLKP s bp)) then guard s 4 (HDRP (PREV_BLKP s bp))
                  else Some ());
             _ \<leftarrow> (if in_heap s (HDRP (NEXT_BLKP s bp)) then guard s 4 (HDRP (NEXT_BLKP s bp))
                  else Some ());
             Some (out @
               (if in_heap s (HDRP (PREV_BLKP s bp)) then
                  if GET_ALLOC s (HDRP (PREV_BLKP s bp)) = 0 then [PrevBlockFree] else []
                else []) @
               (if in_heap s (HDRP (NEXT_BLKP s bp)) then
                  if GET_ALLOC s (HDRP (NEXT_BLKP s bp)) = 0 then [NextBlockFree] else []
                else []))
           }
         else Some out
     }"

text \<open>The walk over the block chain: the \<^verbatim>\<open>for\<close> loop of \<^verbatim>\<open>mm_checkheap\<close>, with the output so
  far and \<^verbatim>\<open>count1\<close>. It yields the block the loop stopped at. The loop does not end on
  a chain that never arrives at a header of size 0: \<open>None\<close>.\<close>

partial_function (option) check_blocks ::
  "int \<Rightarrow> addr \<Rightarrow> 32 word \<Rightarrow> diag list \<Rightarrow> state \<Rightarrow> (addr \<times> 32 word \<times> diag list) option" where
  "check_blocks verbose bp count1 out s =
     do {
       _ \<leftarrow> guard s 4 (HDRP bp);
       if GET_SIZE s (HDRP bp) > 0 then
         do {
           printed \<leftarrow> (if verbose \<noteq> 0 then printblock s bp else Some []);
           checked \<leftarrow> mm_checkblock s bp;
           check_blocks verbose (NEXT_BLKP s bp)
             (if GET_ALLOC s (HDRP bp) = 0 then count1 + 1 else count1)
             (out @ printed @ checked) s
         }
       else Some (bp, count1, out)
     }"

text \<open>The walk over the free list: the \<^verbatim>\<open>while\<close> loop, with \<^verbatim>\<open>count2\<close>. It reads the two
  links of the node, and a link of each neighbour that is not \<^verbatim>\<open>NULL\<close>. The loop does not
  end on a cyclic list: \<open>None\<close>.\<close>

partial_function (option) check_list ::
  "addr \<Rightarrow> 32 word \<Rightarrow> diag list \<Rightarrow> state \<Rightarrow> (32 word \<times> diag list) option" where
  "check_list bp count2 out s =
     (if bp \<noteq> 0 then
        do {
          _ \<leftarrow> guard s 8 bp;
          _ \<leftarrow> (if get_prev s bp \<noteq> 0 then guard s 8 (get_prev s bp + 8) else Some ());
          _ \<leftarrow> guard s 8 (bp + 8);
          _ \<leftarrow> (if get_next s bp \<noteq> 0 then guard s 8 (get_next s bp) else Some ());
          check_list (get_next s bp) (count2 + 1)
            (out @
             (if get_prev s bp \<noteq> 0 then
                if bp \<noteq> get_next s (get_prev s bp) then [PrevInconsistent] else []
              else []) @
             (if get_next s bp \<noteq> 0 then
                if bp \<noteq> get_prev s (get_next s bp) then [NextInconsistent] else []
              else []) @
             (if \<not> in_heap s bp then [NotInHeap] else [])) s
        }
      else Some (count2, out))"

text \<open>\<^verbatim>\<open>mm_checkheap\<close> yields its status and what it printed. The header of the block that
  ended the loop is read again for point 3, at the address the loop has read.\<close>

definition mm_checkheap :: "int \<Rightarrow> state \<Rightarrow> (int \<times> diag list) option" where
  "mm_checkheap verbose s =
     (let heap = DSIZE + mem_heap_lo s
      in do {
        _ \<leftarrow> guard s 4 (HDRP heap);
        _ \<leftarrow> guard s 4 (HDRP (heap_listp s));
        let out = (if GET_SIZE s (HDRP heap) \<noteq> 8 \<or> GET_ALLOC s (HDRP heap) = 0
                   then [BadPrologueHeader] else []);
            out = out @ (if GET s (HDRP (heap_listp s)) \<noteq> GET s (HDRP (heap_listp s))
                         then [BadPrologueFooter] else [])
        in do {
          (bp, count1, out) \<leftarrow> check_blocks verbose (heap_listp s) 0 out s;
          let out = out @ (if GET_SIZE s (HDRP bp) \<noteq> 0 \<or> GET_ALLOC s (HDRP bp) = 0
                           then [BadEpilogueHeader] else [])
          in do {
            (count2, out) \<leftarrow> check_list (dl_start s) 0 out s;
            let out = out @ (if count1 \<noteq> count2 then [CountMismatch] else [])
            in Some (0, out)
          }
        }
      })"

text \<open>The macro \<^verbatim>\<open>checkheap(verbose)\<close> of a debug build: it prints a line and calls
  \<^verbatim>\<open>exit(-1)\<close> when \<^verbatim>\<open>mm_checkheap\<close> yields a nonzero status.\<close>

datatype flow = Continues | Exits int

definition checkheap :: "int \<Rightarrow> state \<Rightarrow> flow option" where
  "checkheap verbose s =
     do {
       (status, out) \<leftarrow> mm_checkheap verbose s;
       if status \<noteq> 0 then Some (Exits (- 1)) else Some Continues
     }"

section \<open>Walks\<close>

text \<open>\<open>next_seg s p xs q\<close>: following the \<^verbatim>\<open>next\<close> fields from \<open>p\<close> visits the nodes \<open>xs\<close>,
  none of them \<^verbatim>\<open>NULL\<close>, and arrives at \<open>q\<close>. A list that ends arrives at \<^verbatim>\<open>NULL\<close>.\<close>

fun next_seg :: "state \<Rightarrow> addr \<Rightarrow> addr list \<Rightarrow> addr \<Rightarrow> bool" where
  "next_seg s p [] q = (p = q)"
| "next_seg s p (x # xs) q = (p \<noteq> 0 \<and> p = x \<and> next_seg s (get_next s x) xs q)"

text \<open>\<open>chain_seg s bp bs q\<close>: \<^verbatim>\<open>NEXT_BLKP\<close> from \<open>bp\<close> visits the blocks \<open>bs\<close>, each of a nonzero
  size, and arrives at \<open>q\<close>.\<close>

fun chain_seg :: "state \<Rightarrow> addr \<Rightarrow> addr list \<Rightarrow> addr \<Rightarrow> bool" where
  "chain_seg s bp [] q = (bp = q)"
| "chain_seg s bp (x # xs) q =
     (bp = x \<and> GET_SIZE s (HDRP x) > 0 \<and> chain_seg s (NEXT_BLKP s x) xs q)"

section \<open>Concrete arenas\<close>

text \<open>An empty arena of \<open>cap\<close> bytes at the address \<open>lo\<close>, every byte of memory \<open>c\<close>.\<close>

definition arena :: "8 word \<Rightarrow> addr \<Rightarrow> nat \<Rightarrow> state" where
  "arena c lo cap = \<lparr>mem = (\<lambda>_. c), mem_heap = lo, mem_brk = lo, mem_max_addr = lo + cap,
     heap_listp = 0, dl_start = 0, dl_end = 0\<rparr>"


text \<open>The heap after \<^verbatim>\<open>mm_init\<close> on an empty, zeroed arena of 1000000 bytes at 4096: the
  stores of \<^verbatim>\<open>mm_init\<close>, \<^verbatim>\<open>extend_heap\<close> and \<^verbatim>\<open>add_freeblock\<close>, in their order. It holds
  one free block of 24 bytes.\<close>

definition fresh_heap :: state where
  "fresh_heap = \<lparr>mem =
        store64
         (store64
           (store32
             (store32
               (store32
                 (store32
                   (store32 (store32 (store32 (\<lambda>_. 0) 4096 0) 4100 9) 4104 9)
                   4108 1)
                 4108 24)
               4128 24)
             4132 1)
           4120 0)
         4112 0,
        mem_heap = 4096, mem_brk = 4136, mem_max_addr = 1004096,
        heap_listp = 4112, dl_start = 4112, dl_end = 4112\<rparr>"


text \<open>The heap after \<^verbatim>\<open>mm_malloc(504)\<close> on \<open>fresh_heap\<close>: an allocated block of 512 bytes at
  4112 and a free block of 24 bytes at 4624.\<close>

definition heap_one :: state where
  "heap_one = \<lparr>mem =
     store64 (store64 (store32 (store32 (store32 (store32 (store32 (store32
     (store64 (store64 (store64 (store64 (store32 (store32 (store32
       (mem fresh_heap)
       4132 512) 4640 512) 4644 1)
       4136 4112) 4120 4136) 4144 0) 4120 0)
       4108 536) 4640 536) 4108 513) 4616 513) 4620 24) 4640 24)
       4632 0) 4624 0,
     mem_heap = 4096, mem_brk = 4648, mem_max_addr = 1004096,
     heap_listp = 4112, dl_start = 4624, dl_end = 4624\<rparr>"


text \<open>The heap after \<^verbatim>\<open>mm_init\<close> on an arena of 40 bytes, every byte of memory 255 before:
  the arena is full.\<close>

definition small_heap :: state where
  "small_heap = \<lparr>mem =
     store64 (store64 (store32 (store32 (store32 (store32 (store32 (store32 (store32
       (\<lambda>_. 255)
       4096 0) 4100 9) 4104 9) 4108 1) 4108 24) 4128 24) 4132 1) 4120 0) 4112 0,
     mem_heap = 4096, mem_brk = 4136, mem_max_addr = 4136,
     heap_listp = 4112, dl_start = 4112, dl_end = 4112\<rparr>"


text \<open>A heap of five blocks, free (24 bytes, at 4112), allocated, free (48 bytes, at 4160),
  allocated, free (32 bytes, at 4232), the free blocks in the free list in this order.\<close>

definition three_free :: state where
  "three_free = \<lparr>mem =
     store64 (store64 (store64 (store64 (store64 (store64
     (store32 (store32 (store32 (store32 (store32 (store32 (store32 (store32 (store32 (store32
     (store32 (store32 (store32 (store32
       (\<lambda>_. 0)
       4096 0) 4100 9) 4104 9)
       4108 24) 4128 24)
       4132 25) 4152 25)
       4156 48) 4200 48)
       4204 25) 4224 25)
       4228 32) 4256 32)
       4260 1)
       4112 0) 4120 4160)
       4160 4112) 4168 4232)
       4232 4160) 4240 0,
     mem_heap = 4096, mem_brk = 4264, mem_max_addr = 1004096,
     heap_listp = 4112, dl_start = 4112, dl_end = 4232\<rparr>"


text \<open>\<open>fresh_heap\<close> after a stray store of 0 over the footer of its free block.\<close>

definition bad_heap :: state where
  "bad_heap = fresh_heap\<lparr>mem := store32 (mem fresh_heap) 4128 0\<rparr>"


text \<open>The heap after \<^verbatim>\<open>mm_init\<close> on an empty, zeroed arena of 16 bytes at 4096: the four
  words of \<^verbatim>\<open>mm_init\<close> fill it, \<^verbatim>\<open>extend_heap\<close> fails, and \<^verbatim>\<open>heap_listp\<close> is \<^verbatim>\<open>NULL\<close>.\<close>

definition tiny_heap :: state where
  "tiny_heap = \<lparr>mem = store32 (store32 (store32 (store32 (\<lambda>_. 0) 4096 0) 4100 9) 4104 9) 4108 1,
     mem_heap = 4096, mem_brk = 4112, mem_max_addr = 4112,
     heap_listp = 0, dl_start = 0, dl_end = 0\<rparr>"

text \<open>\<open>fresh_heap\<close> with the one node of its free list linked to itself.\<close>

definition cyclic_heap :: state where
  "cyclic_heap = fresh_heap\<lparr>mem := store64 (mem fresh_heap) 4120 4112\<rparr>"

section \<open>The reads of the heap checker\<close>

text \<open>The words that \<^verbatim>\<open>printblock\<close> and \<^verbatim>\<open>mm_checkblock\<close> read at a block, and the links
  that the loop over the free list reads at a node, lie in the arena.\<close>

definition block_reads :: "state \<Rightarrow> addr \<Rightarrow> bool" where
  "block_reads s x \<longleftrightarrow> in_arena s (HDRP x) 4 \<and> in_arena s (FTRP s x) 4 \<and>
     (GET_ALLOC s (HDRP x) = 0 \<longrightarrow>
        in_arena s (x - DSIZE) 4 \<and>
        (in_heap s (HDRP (PREV_BLKP s x)) \<longrightarrow> in_arena s (HDRP (PREV_BLKP s x)) 4) \<and>
        (in_heap s (HDRP (NEXT_BLKP s x)) \<longrightarrow> in_arena s (HDRP (NEXT_BLKP s x)) 4))"

definition node_reads :: "state \<Rightarrow> addr \<Rightarrow> bool" where
  "node_reads s x \<longleftrightarrow> in_arena s x 8 \<and> in_arena s (x + 8) 8 \<and>
     (get_prev s x \<noteq> 0 \<longrightarrow> in_arena s (get_prev s x + 8) 8) \<and>
     (get_next s x \<noteq> 0 \<longrightarrow> in_arena s (get_next s x) 8)"

text \<open>\<open>heap_one\<close> after \<^verbatim>\<open>mm_free(4112)\<close>: the block is marked free, appended to the free
  list, and merged with the free block after it, which leaves the list.\<close>

definition heap_freed :: state where
  "heap_freed = \<lparr>mem =
     store32 (store32 (store64 (store64 (store64 (store64 (store32 (store32
       (mem heap_one)
       4108 512) 4616 512)
       4112 4624) 4632 4112) 4120 0) 4112 0)
       4108 536) 4640 536,
     mem_heap = 4096, mem_brk = 4648, mem_max_addr = 1004096,
     heap_listp = 4112, dl_start = 4112, dl_end = 4112\<rparr>"

text \<open>\<open>heap_one\<close> after \<^verbatim>\<open>mm_realloc(4112, 536)\<close>: the free block after the block has left
  the free list, and the block has the tags of an allocated block of 536 bytes.\<close>

definition heap_grown :: state where
  "heap_grown = heap_one\<lparr>mem := store32 (store32 (mem heap_one) 4108 537) 4640 537,
     dl_start := 0, dl_end := 0\<rparr>"

section \<open>The heap as a list of blocks\<close>

text \<open>
  The invariant of the allocator speaks of the heap as a list of blocks, each with its
  size (header and footer included) and its allocated bit, laid out one after the other
  from the first block, 16 bytes above the start of the arena, up to the epilogue header
  just below \<open>mem_brk\<close>. \<open>tag n al\<close> is the word that \<^verbatim>\<open>PACK(n, al)\<close> stores in a header or
  a footer, and \<open>write_tags\<close> the two stores of \<^verbatim>\<open>PUT(HDRP(bp), ...)\<close> and
  \<^verbatim>\<open>PUT(FTRP(bp), ...)\<close> for a block of \<open>n\<close> bytes.
\<close>

definition tag :: "nat \<Rightarrow> bool \<Rightarrow> 32 word" where
  "tag n al = word_of_nat n OR (if al then 1 else 0)"

definition write_tags :: "memory \<Rightarrow> addr \<Rightarrow> nat \<Rightarrow> bool \<Rightarrow> memory" where
  "write_tags m bp n al = store32 (store32 m (bp - 4) (tag n al)) (bp + n - 8) (tag n al)"

type_synonym blk = "nat \<times> bool"

fun layout :: "addr \<Rightarrow> blk list \<Rightarrow> (addr \<times> nat \<times> bool) list" where
  "layout a [] = []"
| "layout a ((n, al) # bs) = (a, n, al) # layout (a + n) bs"

definition total_size :: "blk list \<Rightarrow> nat" where
  "total_size bs = sum_list (map fst bs)"

definition sizes_ok :: "blk list \<Rightarrow> bool" where
  "sizes_ok bs = (\<forall>(n, al) \<in> set bs. 24 \<le> n \<and> 8 dvd n)"

text \<open>No two neighbours in the list are both free.\<close>

fun no_adj :: "blk list \<Rightarrow> bool" where
  "no_adj (x # y # bs) = ((snd x \<or> snd y) \<and> no_adj (y # bs))"
| "no_adj _ = True"

text \<open>The arena: it starts at a multiple of 8, its break is within its limit, and it is
  shorter than \<open>2^32\<close> bytes, so that every block size fits the 32-bit header.\<close>

definition arena_ok :: "state \<Rightarrow> bool" where
  "arena_ok s \<longleftrightarrow> 8 dvd mem_heap s \<and> mem_brk s \<le> mem_max_addr s \<and>
     mem_max_addr s < 2 ^ 64 \<and> mem_max_addr s < mem_heap s + 2 ^ 32"

definition chain :: "state \<Rightarrow> blk list \<Rightarrow> (addr \<times> nat \<times> bool) list" where
  "chain s bs = layout (mem_heap s + 16) bs"

text \<open>\<open>tags_ok s bs\<close>: the memory of \<open>s\<close> holds the prologue, the blocks \<open>bs\<close> with equal
  header and footer each, and the epilogue header.\<close>

definition tags_ok :: "state \<Rightarrow> blk list \<Rightarrow> bool" where
  "tags_ok s bs \<longleftrightarrow> arena_ok s \<and> sizes_ok bs \<and> mem_brk s = mem_heap s + 16 + total_size bs \<and>
     load32 (mem s) (mem_heap s + 4) = 9 \<and> load32 (mem s) (mem_heap s + 8) = 9 \<and>
     load32 (mem s) (mem_brk s - 4) = 1 \<and>
     (\<forall>a n al. (a, n, al) \<in> set (chain s bs) \<longrightarrow>
        load32 (mem s) (a - 4) = tag n al \<and> load32 (mem s) (a + n - 8) = tag n al)"

text \<open>The free list as a list of addresses: \<open>next_in fl x\<close> and \<open>prev_in fl x\<close> are the
  neighbours of \<open>x\<close> in \<open>fl\<close>, \<^verbatim>\<open>NULL\<close> at the ends. \<open>list_ok s fl\<close>: \<^verbatim>\<open>dl_start\<close> and \<^verbatim>\<open>dl_end\<close>
  are the ends of \<open>fl\<close> and the two links of every node hold its neighbours.\<close>

fun next_in :: "addr list \<Rightarrow> addr \<Rightarrow> addr" where
  "next_in [] x = 0"
| "next_in (y # ys) x = (if x = y then (case ys of [] \<Rightarrow> 0 | z # _ \<Rightarrow> z) else next_in ys x)"

definition prev_in :: "addr list \<Rightarrow> addr \<Rightarrow> addr" where
  "prev_in fl x = next_in (rev fl) x"

definition list_ok :: "state \<Rightarrow> addr list \<Rightarrow> bool" where
  "list_ok s fl \<longleftrightarrow> distinct fl \<and>
     dl_start s = (if fl = [] then 0 else hd fl) \<and> dl_end s = (if fl = [] then 0 else last fl) \<and>
     (\<forall>x\<in>set fl. 0 < x \<and> x < 2 ^ 64 \<and>
        load64 (mem s) x = word_of_nat (prev_in fl x) \<and>
        load64 (mem s) (x + 8) = word_of_nat (next_in fl x)) \<and>
     (\<forall>x\<in>set fl. \<forall>y\<in>set fl. x \<noteq> y \<longrightarrow> x + 16 \<le> y \<or> y + 16 \<le> x)"

definition free_slots :: "state \<Rightarrow> blk list \<Rightarrow> addr set" where
  "free_slots s bs = {a. \<exists>n. (a, n, False) \<in> set (chain s bs)}"

definition used_slots :: "state \<Rightarrow> blk list \<Rightarrow> addr set" where
  "used_slots s bs = {a. \<exists>n. (a, n, True) \<in> set (chain s bs)}"

definition used_blocks :: "state \<Rightarrow> blk list \<Rightarrow> (addr \<times> nat) set" where
  "used_blocks s bs = {(a, n). (a, n, True) \<in> set (chain s bs)}"

text \<open>The invariant: the tags, the free list, the free list holds the free blocks and
  nothing else, and no two neighbours are free. Between the stores of an operation the
  weaker \<open>heap_wf\<close> holds: a free block may be missing from the list, and neighbours
  may be free.\<close>

definition heap_inv :: "state \<Rightarrow> blk list \<Rightarrow> addr list \<Rightarrow> bool" where
  "heap_inv s bs fl \<longleftrightarrow> tags_ok s bs \<and> list_ok s fl \<and> set fl = free_slots s bs \<and> no_adj bs"

definition heap_wf :: "state \<Rightarrow> blk list \<Rightarrow> addr list \<Rightarrow> bool" where
  "heap_wf s bs fl \<longleftrightarrow> tags_ok s bs \<and> list_ok s fl \<and> set fl \<subseteq> free_slots s bs"

section \<open>The heaps that the operations reach\<close>

text \<open>
  \<^verbatim>\<open>mm_init\<close> is called on an empty arena that starts at a multiple of 8, is shorter than
  \<open>2^32\<close> bytes and ends below \<open>2^64\<close>.
\<close>

definition arena_pre :: "state \<Rightarrow> bool" where
  "arena_pre s \<longleftrightarrow> 8 dvd mem_heap s \<and> mem_brk s = mem_heap s \<and>
     mem_max_addr s < 2 ^ 64 \<and> mem_max_addr s < mem_heap s + 2 ^ 32"

text \<open>
  \<open>reach s L\<close>: the heap \<open>s\<close> is what a successful \<^verbatim>\<open>mm_init\<close> and then a sequence of
  completed calls of \<^verbatim>\<open>mm_malloc\<close>, \<^verbatim>\<open>mm_free\<close>, \<^verbatim>\<open>mm_realloc\<close> and \<^verbatim>\<open>calloc\<close> leave, and \<open>L\<close>
  are the pointers that the calls have returned and that have not been released since.
  The caller passes \<^verbatim>\<open>NULL\<close> or a pointer of \<open>L\<close>, and sizes of at most \<open>2^32 - 16\<close> bytes
  (for \<^verbatim>\<open>calloc\<close>, a product that is at most that after its reduction modulo \<open>2^64\<close>): the
  adjusted size of a larger request does not fit the 32-bit \<^verbatim>\<open>extendsize\<close> of \<^verbatim>\<open>mm_malloc\<close>.
  Between the calls the caller may store anything into the payload of a live block, up
  to the footer of the block.
\<close>

inductive reach :: "state \<Rightarrow> addr set \<Rightarrow> bool" where
  init: "arena_pre s0 \<Longrightarrow> mm_init s0 = Some (0, s) \<Longrightarrow> reach s {}"
| malloc: "reach s L \<Longrightarrow> unat sz \<le> 2 ^ 32 - 16 \<Longrightarrow> mm_malloc sz s = Some (r, s') \<Longrightarrow>
     reach s' (if r = 0 then L else insert r L)"
| free: "reach s L \<Longrightarrow> p \<in> L \<or> p = 0 \<Longrightarrow> mm_free p s = Some s' \<Longrightarrow> reach s' (L - {p})"
| realloc: "reach s L \<Longrightarrow> p \<in> L \<or> p = 0 \<Longrightarrow> unat sz \<le> 2 ^ 32 - 16 \<Longrightarrow>
     mm_realloc p sz s = Some (r, s') \<Longrightarrow>
     reach s' (if r = 0 then (if sz = 0 then L - {p} else L) else insert r (L - {p}))"
| calloc: "reach s L \<Longrightarrow> unat (nmemb * sz) \<le> 2 ^ 32 - 16 \<Longrightarrow>
     calloc nmemb sz s = Some (r, s') \<Longrightarrow> reach s' (if r = 0 then L else insert r L)"
| store: "reach s L \<Longrightarrow> p \<in> L \<Longrightarrow>
     \<forall>q. q < p \<or> p + unat (GET_SIZE s (HDRP p)) - 8 \<le> q \<longrightarrow> m q = mem s q \<Longrightarrow>
     reach (s\<lparr>mem := m\<rparr>) L"


section \<open>Memory accesses\<close>

lemma load32_store32_same: "load32 (store32 m p v) p = v"
  unfolding load32_def store32_def
  apply (rule bit_word_eqI)
  apply (auto simp add: bit_simps)
  apply (case_tac "24 \<le> n")
   apply simp_all
  done

lemma load32_store32_other: "p + 4 \<le> q \<or> q + 4 \<le> p \<Longrightarrow> load32 (store32 m p v) q = load32 m q"
  unfolding load32_def store32_def by auto

lemma load32_store32: "q = p \<or> p + 4 \<le> q \<or> q + 4 \<le> p \<Longrightarrow>
   load32 (store32 m p v) q = (if q = p then v else load32 m q)"
  using load32_store32_same load32_store32_other by auto

lemma load64_store64_same: "load64 (store64 m p v) p = v"
  unfolding load64_def store64_def
  apply (simp add: load32_store32_same load32_store32_other)
  apply (rule bit_word_eqI)
  apply (auto simp add: bit_simps)
  done

lemma load32_store64_other: "p + 8 \<le> q \<or> q + 4 \<le> p \<Longrightarrow> load32 (store64 m p v) q = load32 m q"
  unfolding store64_def by (auto simp: load32_store32_other)

lemma load64_store32_other: "p + 4 \<le> q \<or> q + 8 \<le> p \<Longrightarrow> load64 (store32 m p v) q = load64 m q"
  unfolding load64_def by (auto simp: load32_store32_other)

lemma load64_store64_other: "p + 8 \<le> q \<or> q + 8 \<le> p \<Longrightarrow> load64 (store64 m p v) q = load64 m q"
  unfolding store64_def by (auto simp: load64_store32_other)

lemma load64_store64: "q = p \<or> p + 8 \<le> q \<or> q + 8 \<le> p \<Longrightarrow>
   load64 (store64 m p v) q = (if q = p then v else load64 m q)"
  using load64_store64_same load64_store64_other by auto

lemma store32_apply_other: "a < p \<or> p + 4 \<le> a \<Longrightarrow> store32 m p v a = m a"
  unfolding store32_def by auto

lemma store64_apply_other: "a < p \<or> p + 8 \<le> a \<Longrightarrow> store64 m p v a = m a"
  unfolding store64_def by (auto simp: store32_apply_other)

lemma load32_zero: "load32 (\<lambda>_. 0) p = 0"
  by (simp add: load32_def)

lemma load64_zero: "load64 (\<lambda>_. 0) p = 0"
  by (simp add: load64_def load32_def)

lemmas ld = load32_store32 load64_store64 load32_store64_other load64_store32_other load32_zero load64_zero
  store32_apply_other store64_apply_other

lemmas macro_defs = PUT_def GET_def GET_SIZE_def GET_ALLOC_def HDRP_def FTRP_def NEXT_BLKP_def PREV_BLKP_def
  PACK_def WSIZE_def DSIZE_def MINCHUNKSIZE_def ALIGN_def
lemmas list_defs = get_prev_def get_next_def set_prev_def set_next_def add_freeblock_def remove_freeblock_def
lemmas ev = Let_def macro_defs list_defs ld mem_sbrk_def extend_heap_def place_def shrink_def
  find_fit_def mm_malloc_def mm_free_def mm_realloc_def malloc_asize_def realloc_asize_def


section \<open>Concrete heaps\<close>

lemma fresh_heap_reached: "mm_init (arena 0 4096 1000000) = Some (0, fresh_heap)"
  apply (simp add: mm_init_def arena_def ev)
  apply (subst coalesce.simps)
  apply (simp add: ev fresh_heap_def)
  done

lemma heap_one_reached: "mm_malloc 504 fresh_heap = Some (4112, heap_one)"
  apply (simp add: fresh_heap_def ev)
  apply (subst find_fit_from.simps)
  apply (simp add: ev)
  apply (subst find_fit_from.simps)
  apply (simp add: ev)
  apply (subst coalesce.simps)
  apply (simp add: ev)
  apply (subst coalesce.simps)
  apply (simp add: ev)
  apply (subst coalesce.simps)
  apply (simp add: ev heap_one_def fresh_heap_def)
  done

lemma small_heap_reached: "mm_init (arena 255 4096 40) = Some (0, small_heap)"
  apply (simp add: mm_init_def arena_def ev)
  apply (subst coalesce.simps)
  apply (simp add: ev small_heap_def)
  done

lemma small_heap_exhausted: "mm_malloc 100 small_heap = Some (0, small_heap)"
  apply (simp add: small_heap_def ev)
  apply (subst find_fit_from.simps)
  apply (simp add: ev)
  apply (subst find_fit_from.simps)
  apply (simp add: ev)
  done


section \<open>The adjusted size of a reallocation\<close>

lemma realloc_asize_eq: "realloc_asize sz = 4 + ALIGN sz + 4"
  by (simp add: realloc_asize_def)

lemma word_less_16_cases:
  assumes "(sz :: 64 word) < 16"
  shows "sz \<in> {0, 1, 2, 3, 4, 5, 6, 7, 8, 9, 10, 11, 12, 13, 14, 15}"
proof -
  have "unat sz < 16" using assms by (simp add: word_less_nat_alt)
  then have "unat sz \<in> {0, 1, 2, 3, 4, 5, 6, 7, 8, 9, 10, 11, 12, 13, 14, 15}" by simp arith
  then have "word_of_nat (unat sz) \<in> ((word_of_nat ` {0, 1, 2, 3, 4, 5, 6, 7, 8, 9, 10, 11, 12, 13, 14, 15}) :: 64 word set)"
    by (rule imageI)
  then show ?thesis by simp
qed

lemma asize_differ_iff: "(realloc_asize sz \<noteq> malloc_asize sz) = (sz \<le> 8)"
proof (cases "sz < 16")
  case True
  from word_less_16_cases [OF True] show ?thesis
    by (auto simp: realloc_asize_def malloc_asize_def ALIGN_def)
next
  case False
  then have "\<not> sz \<le> 8" by (simp add: word_le_nat_alt word_less_nat_alt)
  with False show ?thesis by (simp add: realloc_asize_def malloc_asize_def)
qed


text \<open>
  C10, as stated, fails for requests of 9 to 15 bytes: they are smaller than the minimum
  payload of 16 bytes, and \<^verbatim>\<open>mm_realloc\<close> and \<^verbatim>\<open>mm_malloc\<close> compute the same block size
  for them, since the alignment alone rounds them up to 16. Here at 12 bytes.
\<close>

theorem asize_equal_at_12:
  "(12 :: 64 word) \<noteq> 0 \<and> (12 :: 64 word) < 2 * 8 \<and> realloc_asize 12 = malloc_asize 12"
  by (simp add: realloc_asize_def malloc_asize_def ALIGN_def)

text \<open>
  C10 (amended): for every requested size, \<^verbatim>\<open>mm_realloc\<close> computes its adjusted block size
  as header + footer + \<^verbatim>\<open>ALIGN(size)\<close> from the raw request, the floored value being
  overwritten; it differs from the adjusted size of \<^verbatim>\<open>mm_malloc\<close> exactly for the requests
  of at most 8 bytes.
\<close>

theorem realloc_asize_unfloored:
  "realloc_asize sz = 4 + ALIGN sz + 4 \<and> (realloc_asize sz \<noteq> malloc_asize sz) = (sz \<le> 8)"
  using realloc_asize_eq asize_differ_iff by simp

section \<open>Shrinking reallocation\<close>

lemma shrink_noop:
  assumes "asize < ucast (GET_SIZE s (HDRP bp))"
  shows "shrink bp asize s = Some s"
proof -
  have "\<not> ucast (GET_SIZE s (HDRP bp)) < asize"
    using assms by (simp add: word_less_nat_alt)
  then show ?thesis by (simp add: shrink_def Let_def)
qed

lemma realloc_shrink_noop:
  "sz \<noteq> 0 \<Longrightarrow> ptr \<noteq> 0 \<Longrightarrow> realloc_asize sz < ucast (GET_SIZE s (HDRP ptr)) \<Longrightarrow>
   mm_realloc ptr sz s = Some (ptr, s)"
  by (simp add: mm_realloc_def Let_def shrink_noop)


text \<open>
  C2 at the input \<^verbatim>\<open>mm_realloc(p, 8)\<close> for the block \<open>p = 4112\<close> of 512 bytes that
  \<^verbatim>\<open>mm_malloc(504)\<close> returned: the adjusted size is 16, the leftover of 496 bytes is at least
  the minimum chunk size of 24, and the call returns \<open>p\<close> with the heap as it was: no
  remainder is split off. The test \<^verbatim>\<open>csize < asize\<close> of \<^verbatim>\<open>shrink\<close> is never true when
  \<^verbatim>\<open>mm_realloc\<close> calls it.
\<close>

theorem realloc_shrink_never_splits:
  "mm_malloc 504 fresh_heap = Some (4112, heap_one) \<and>
   GET_SIZE heap_one (HDRP 4112) = 512 \<and> GET_ALLOC heap_one (HDRP 4112) = 1 \<and>
   realloc_asize 8 = 16 \<and> MINCHUNKSIZE \<le> 512 - realloc_asize 8 \<and>
   mm_realloc 4112 8 heap_one = Some (4112, heap_one)"
proof -
  have sz: "GET_SIZE heap_one (HDRP 4112) = 512" and al: "GET_ALLOC heap_one (HDRP 4112) = 1"
    by (simp_all add: heap_one_def macro_defs ld)
  have a: "realloc_asize 8 = 16" by (simp add: realloc_asize_def ALIGN_def)
  have "mm_realloc 4112 8 heap_one = Some (4112, heap_one)"
    by (rule realloc_shrink_noop) (simp_all add: a sz)
  then show ?thesis using heap_one_reached sz al a by (simp add: MINCHUNKSIZE_def)
qed


section \<open>Zeroed allocation\<close>


text \<open>
  C5 at the input \<^verbatim>\<open>calloc(1, 100)\<close> on \<open>small_heap\<close>, whose arena cannot grow:
  \<^verbatim>\<open>mm_malloc(100)\<close> fails, it returns \<^verbatim>\<open>NULL\<close> and leaves the heap as it was; \<^verbatim>\<open>calloc\<close>
  then runs \<^verbatim>\<open>memset(NULL, 0, 100)\<close> and does not return, where the claim has it return
  the failure without a zero-fill.
\<close>

theorem calloc_zero_fills_after_failure:
  "mm_init (arena 255 4096 40) = Some (0, small_heap) \<and>
   mm_malloc (1 * 100) small_heap = Some (0, small_heap) \<and>
   memset_through 0 0 (1 * 100) small_heap = None \<and>
   calloc 1 100 small_heap = None"
  using small_heap_reached small_heap_exhausted
  by (simp add: calloc_def memset_through_def in_arena_def)

section \<open>The fit search\<close>

lemma find_fit_from_seg:
  "next_seg s p pre bp \<Longrightarrow> \<forall>x\<in>set pre. \<not> asize \<le> ucast (GET_SIZE s (HDRP x)) \<Longrightarrow>
   find_fit_from asize p s = find_fit_from asize bp s"
proof (induction pre arbitrary: p)
  case Nil
  then show ?case by simp
next
  case (Cons x xs)
  then have x: "p \<noteq> 0" "p = x" "\<not> asize \<le> ucast (GET_SIZE s (HDRP x))"
    "next_seg s (get_next s x) xs bp" by simp_all
  have "find_fit_from asize x s = find_fit_from asize (get_next s x) s"
    by (subst find_fit_from.simps) (use x in simp)
  with Cons x show ?case by simp
qed


text \<open>
  C6: \<^verbatim>\<open>find_fit\<close> scans the free list from \<^verbatim>\<open>dl_start\<close>. When the scan, along the \<^verbatim>\<open>next\<close>
  fields, passes the blocks \<open>pre\<close>, all of them too small, and arrives at \<open>bp\<close>, then
  \<^verbatim>\<open>find_fit\<close> returns \<open>bp\<close> if \<open>bp\<close> is a block of at least the required size (the first
  fit, whatever comes after it), and \<^verbatim>\<open>NULL\<close> if \<open>bp\<close> is \<^verbatim>\<open>NULL\<close> (the list is exhausted).
\<close>

theorem find_fit_first_fit:
  assumes "next_seg s (dl_start s) pre bp"
    and "\<forall>x\<in>set pre. \<not> asize \<le> ucast (GET_SIZE s (HDRP x))"
  shows "(bp \<noteq> 0 \<and> asize \<le> ucast (GET_SIZE s (HDRP bp)) \<longrightarrow> find_fit asize s = Some bp) \<and>
         (bp = 0 \<longrightarrow> find_fit asize s = Some 0)"
proof -
  have e: "find_fit asize s = find_fit_from asize bp s"
    unfolding find_fit_def using assms by (rule find_fit_from_seg)
  have "find_fit_from asize bp s = Some bp" if "bp \<noteq> 0" "asize \<le> ucast (GET_SIZE s (HDRP bp))"
    by (subst find_fit_from.simps) (simp add: that)
  moreover have "find_fit_from asize 0 s = Some 0"
    by (subst find_fit_from.simps) simp
  ultimately show ?thesis using e by auto
qed


text \<open>On \<open>three_free\<close>, a request for 32 bytes gets the second block of the list, of 48
  bytes, not the third, of 32 bytes; a request for 64 bytes gets \<^verbatim>\<open>NULL\<close>.\<close>

theorem find_fit_first_fit_witness:
  "next_seg three_free (dl_start three_free) [4112] 4160 \<and>
   \<not> 32 \<le> (ucast (GET_SIZE three_free (HDRP 4112)) :: 64 word) \<and>
   32 \<le> (ucast (GET_SIZE three_free (HDRP 4160)) :: 64 word) \<and>
   32 \<le> (ucast (GET_SIZE three_free (HDRP 4232)) :: 64 word) \<and>
   GET_SIZE three_free (HDRP 4232) < GET_SIZE three_free (HDRP 4160) \<and>
   find_fit 32 three_free = Some 4160 \<and>
   next_seg three_free (dl_start three_free) [4112, 4160, 4232] 0 \<and>
   find_fit 64 three_free = Some 0"
proof -
  have g: "GET_SIZE three_free (HDRP 4112) = 24" "GET_SIZE three_free (HDRP 4160) = 48"
    "GET_SIZE three_free (HDRP 4232) = 32"
    by (simp_all add: three_free_def macro_defs ld)
  have n: "get_next three_free 4112 = 4160" "get_next three_free 4160 = 4232"
    "get_next three_free 4232 = 0" "dl_start three_free = 4112"
    by (simp_all add: three_free_def get_next_def ld)
  have s1: "next_seg three_free (dl_start three_free) [4112] 4160" by (simp add: n)
  have s2: "next_seg three_free (dl_start three_free) [4112, 4160, 4232] 0" by (simp add: n)
  have "find_fit 32 three_free = Some 4160"
    using find_fit_first_fit [OF s1, of 32] by (simp add: g)
  moreover have "find_fit 64 three_free = Some 0"
    using find_fit_first_fit [OF s2, of 64] by (simp add: g)
  ultimately show ?thesis using s1 s2 by (simp add: g)
qed


section \<open>The status of the heap checker\<close>

lemma guard_Some [simp]: "in_arena s p n \<Longrightarrow> guard s n p = Some ()"
  by (simp add: guard_def)

lemma guard_None [simp]: "\<not> in_arena s p n \<Longrightarrow> guard s n p = None"
  by (simp add: guard_def)

lemma printblock_returns: "block_reads s x \<Longrightarrow> \<exists>d. printblock s x = Some d"
  by (simp add: printblock_def block_reads_def Let_def)

lemma mm_checkblock_returns: "block_reads s x \<Longrightarrow> \<exists>d. mm_checkblock s x = Some d"
  by (simp add: mm_checkblock_def block_reads_def Let_def)

lemma check_blocks_seg:
  "chain_seg s bp bs e \<Longrightarrow> \<forall>x\<in>set bs. block_reads s x \<Longrightarrow>
   \<exists>c' out'. check_blocks v bp c out s = check_blocks v e c' out' s"
proof (induction bs arbitrary: bp c out)
  case Nil
  then show ?case by auto
next
  case (Cons x xs)
  then have x: "bp = x" "GET_SIZE s (HDRP x) > 0" "chain_seg s (NEXT_BLKP s x) xs e"
    "block_reads s x" "\<forall>y\<in>set xs. block_reads s y" by simp_all
  obtain d where d: "mm_checkblock s x = Some d" using mm_checkblock_returns [OF x(4)] by blast
  obtain d' where d': "printblock s x = Some d'" using printblock_returns [OF x(4)] by blast
  have h: "in_arena s (HDRP x) 4" using x(4) by (simp add: block_reads_def)
  have "\<exists>c1 out1. check_blocks v x c out s = check_blocks v (NEXT_BLKP s x) c1 out1 s"
    by (subst check_blocks.simps) (use x(2) d d' h in auto)
  then obtain c1 out1 where "check_blocks v bp c out s = check_blocks v (NEXT_BLKP s x) c1 out1 s"
    using x(1) by blast
  moreover obtain c' out' where "check_blocks v (NEXT_BLKP s x) c1 out1 s = check_blocks v e c' out' s"
    using Cons.IH [OF x(3,5)] by blast
  ultimately show ?case by auto
qed

lemma check_blocks_end:
  assumes "chain_seg s bp bs e" and "\<forall>x\<in>set bs. block_reads s x"
    and "GET_SIZE s (HDRP e) = 0" and "in_arena s (HDRP e) 4"
  shows "\<exists>c' out'. check_blocks v bp c out s = Some (e, c', out')"
proof -
  obtain c' out' where "check_blocks v bp c out s = check_blocks v e c' out' s"
    using check_blocks_seg [OF assms(1,2)] by blast
  moreover have "check_blocks v e c' out' s = Some (e, c', out')"
    using assms(3,4) by (subst check_blocks.simps) simp
  ultimately show ?thesis by auto
qed

lemma check_list_end:
  "next_seg s p fl 0 \<Longrightarrow> \<forall>x\<in>set fl. node_reads s x \<Longrightarrow>
   \<exists>c' out'. check_list p c out s = Some (c', out')"
proof (induction fl arbitrary: p c out)
  case Nil
  then show ?case by (subst check_list.simps) simp
next
  case (Cons x xs)
  then have x: "p \<noteq> 0" "p = x" "next_seg s (get_next s x) xs 0"
    "node_reads s x" "\<forall>y\<in>set xs. node_reads s y" by simp_all
  have "\<exists>c1 out1. check_list x c out s = check_list (get_next s x) c1 out1 s"
    by (subst check_list.simps) (use x(1,2,4) in \<open>auto simp add: node_reads_def\<close>)
  then obtain c1 out1 where "check_list p c out s = check_list (get_next s x) c1 out1 s"
    using x(2) by blast
  then show ?case using Cons.IH [OF x(3,5)] by simp
qed

lemma mm_checkheap_status: "mm_checkheap verbose s = Some (r, out) \<Longrightarrow> r = 0"
  by (auto simp: mm_checkheap_def Let_def bind_eq_Some_conv split: prod.splits)

lemma checkheap_no_exit: "checkheap verbose s \<noteq> Some (Exits e)"
proof (cases "mm_checkheap verbose s")
  case None
  then show ?thesis by (simp add: checkheap_def)
next
  case (Some a)
  obtain r out where a: "a = (r, out)" by (cases a)
  with Some have "r = 0" using mm_checkheap_status by blast
  with Some a show ?thesis by (simp add: checkheap_def)
qed

lemma chain_seg_first:
  assumes "chain_seg s bp bs e" "\<forall>x\<in>set bs. block_reads s x" "in_arena s (HDRP e) 4"
  shows "in_arena s (HDRP bp) 4"
  using assms by (cases bs) (auto simp: block_reads_def)

lemma mm_checkheap_returns:
  assumes "chain_seg s (heap_listp s) bs e" and "GET_SIZE s (HDRP e) = 0"
    and "next_seg s (dl_start s) fl 0"
    and "in_arena s (HDRP (DSIZE + mem_heap_lo s)) 4" and "in_arena s (HDRP e) 4"
    and "\<forall>x\<in>set bs. block_reads s x" and "\<forall>x\<in>set fl. node_reads s x"
  shows "\<exists>out. mm_checkheap verbose s = Some (0, out)"
proof -
  let ?out0 = "(if GET_SIZE s (HDRP (DSIZE + mem_heap_lo s)) \<noteq> 8 \<or> GET_ALLOC s (HDRP (DSIZE + mem_heap_lo s)) = 0
                 then [BadPrologueHeader] else [])"
  have f: "in_arena s (HDRP (heap_listp s)) 4" using assms(1,6,5) by (rule chain_seg_first)
  obtain c1 out1 where b: "check_blocks verbose (heap_listp s) 0 ?out0 s = Some (e, c1, out1)"
    using check_blocks_end [OF assms(1,6,2,5)] by blast
  let ?out2 = "out1 @ (if GET_SIZE s (HDRP e) \<noteq> 0 \<or> GET_ALLOC s (HDRP e) = 0
                         then [BadEpilogueHeader] else [])"
  obtain c2 out3 where l: "check_list (dl_start s) 0 ?out2 s = Some (c2, out3)"
    using check_list_end [OF assms(3,7)] by blast
  show ?thesis
    using b l f assms(4) by (simp add: mm_checkheap_def Let_def)
qed

lemmas chk = macro_defs ld Let_def list_defs mm_checkblock_def aligned_def align_def in_heap_def
  mem_heap_hi_def mem_heap_lo_def in_arena_def guard_def

text \<open>On \<open>cyclic_heap\<close> the loop over the free list comes back to the node at 4112 for
  ever.\<close>

lemma cyclic_next: "get_next cyclic_heap 4112 = 4112"
  by (simp add: cyclic_heap_def get_next_def ld)

lemma check_list_cyclic_aux:
  assumes "check_list bp c out s = Some y"
  shows "s = cyclic_heap \<longrightarrow> bp \<noteq> 4112"
proof (rule check_list.raw_induct [where P = "\<lambda>bp c out s y. s = cyclic_heap \<longrightarrow> bp \<noteq> 4112", OF _ assms])
  fix f :: "addr \<Rightarrow> 32 word \<Rightarrow> diag list \<Rightarrow> state \<Rightarrow> (32 word \<times> diag list) option"
    and bp :: addr and count2 :: "32 word" and out :: "diag list" and s :: state
    and y :: "32 word \<times> diag list"
  assume IH: "\<And>bp c out s y. f bp c out s = Some y \<Longrightarrow> s = cyclic_heap \<longrightarrow> bp \<noteq> 4112"
    and body: "(if bp \<noteq> 0
      then guard s 8 bp \<bind>
           (\<lambda>_. (if get_prev s bp \<noteq> 0 then guard s 8 (get_prev s bp + 8)
                 else Some ()) \<bind>
                (\<lambda>_. guard s 8 (bp + 8) \<bind>
                     (\<lambda>_. (if get_next s bp \<noteq> 0
                           then guard s 8 (get_next s bp) else Some ()) \<bind>
                          (\<lambda>_. f (get_next s bp) (count2 + 1)
                                (out @
                                 (if get_prev s bp \<noteq> 0
                                  then if bp \<noteq> get_next s (get_prev s bp)
                                    then [PrevInconsistent] else []
                                  else []) @
                                 (if get_next s bp \<noteq> 0
                                  then if bp \<noteq> get_prev s (get_next s bp)
                                    then [NextInconsistent] else []
                                  else []) @
                                 (if \<not> in_heap s bp then [NotInHeap]
                                  else []))
                                s))))
      else Some (count2, out)) = Some y"
  show "s = cyclic_heap \<longrightarrow> bp \<noteq> 4112"
  proof (intro impI notI)
    assume s: "s = cyclic_heap" and bp: "bp = 4112"
    from body obtain c' out' where "f 4112 c' out' cyclic_heap = Some y"
      unfolding s bp by (auto simp: cyclic_next bind_eq_Some_conv split: if_splits)
    from IH [OF this] show False by simp
  qed
qed

lemma check_list_cyclic: "check_list 4112 c out cyclic_heap = None"
  using check_list_cyclic_aux [of 4112 c out cyclic_heap] by (cases "check_list 4112 c out cyclic_heap") auto

lemma cyclic_heap_check: "mm_checkheap 0 cyclic_heap = None"
  apply (simp add: mm_checkheap_def cyclic_heap_def fresh_heap_def chk)
  apply (subst check_blocks.simps)
  apply (simp add: chk)
  apply (subst check_blocks.simps)
  apply (simp add: chk)
  apply (simp add: check_list_cyclic [unfolded cyclic_heap_def fresh_heap_def, simplified])
  done

lemma tiny_heap_reached: "mm_init (arena 0 4096 16) = Some (0, tiny_heap)"
  by (simp add: mm_init_def arena_def ev tiny_heap_def)


text \<open>
  C9, as stated, fails on the heap that \<^verbatim>\<open>mm_init\<close> leaves on an arena of 16 bytes:
  \<^verbatim>\<open>mm_init\<close> returns 0 although \<^verbatim>\<open>extend_heap\<close> failed, \<^verbatim>\<open>heap_listp\<close> is \<^verbatim>\<open>NULL\<close>, and
  \<^verbatim>\<open>mm_checkheap\<close> reads the header of \<^verbatim>\<open>NULL\<close>, outside the arena: no status is returned.
  None is returned on \<open>cyclic_heap\<close> either, where the loop over the free list does not end.
\<close>

theorem checkheap_killed:
  "mm_init (arena 0 4096 16) = Some (0, tiny_heap) \<and> heap_listp tiny_heap = 0 \<and>
   \<not> in_arena tiny_heap (HDRP (heap_listp tiny_heap)) 4 \<and>
   mm_checkheap 0 tiny_heap = None \<and> checkheap 0 tiny_heap = None \<and>
   get_next cyclic_heap 4112 = 4112 \<and> mm_checkheap 0 cyclic_heap = None"
proof -
  have n: "\<not> in_arena tiny_heap (HDRP (heap_listp tiny_heap)) 4"
    by (simp add: tiny_heap_def in_arena_def HDRP_def)
  then have "mm_checkheap 0 tiny_heap = None"
    by (simp add: mm_checkheap_def Let_def)
  then show ?thesis using tiny_heap_reached n cyclic_next cyclic_heap_check
    by (simp add: checkheap_def tiny_heap_def)
qed

text \<open>
  C9 (amended): for every heap and verbosity flag, \<^verbatim>\<open>mm_checkheap\<close> returns no status
  other than 0, so the macro \<^verbatim>\<open>checkheap\<close> never calls \<^verbatim>\<open>exit\<close>; and it does return 0,
  whatever it finds and prints, on every heap where the walk over the block chain
  arrives at a header of size 0, the walk over the free list arrives at \<^verbatim>\<open>NULL\<close>, and the
  words read on the way lie in the arena.
\<close>

theorem checkheap_status_zero:
  "(\<forall>r out. mm_checkheap verbose s = Some (r, out) \<longrightarrow> r = 0) \<and>
   (\<forall>e. checkheap verbose s \<noteq> Some (Exits e)) \<and>
   (chain_seg s (heap_listp s) bs e \<and> GET_SIZE s (HDRP e) = 0 \<and> next_seg s (dl_start s) fl 0 \<and>
    in_arena s (HDRP (DSIZE + mem_heap_lo s)) 4 \<and> in_arena s (HDRP e) 4 \<and>
    (\<forall>x\<in>set bs. block_reads s x) \<and> (\<forall>x\<in>set fl. node_reads s x) \<longrightarrow>
      (\<exists>out. mm_checkheap verbose s = Some (0, out)) \<and> checkheap verbose s = Some Continues)"
proof -
  have "checkheap verbose s = Some Continues" if "mm_checkheap verbose s = Some (0, out)" for out
    using that by (simp add: checkheap_def)
  then show ?thesis
    using mm_checkheap_status checkheap_no_exit mm_checkheap_returns by blast
qed

lemma bad_heap_check: "mm_checkheap 0 bad_heap = Some (0, [HeaderFooterMismatch])"
  apply (simp add: mm_checkheap_def bad_heap_def fresh_heap_def chk)
  apply (subst check_blocks.simps)
  apply (simp add: chk)
  apply (subst check_blocks.simps)
  apply (simp add: chk)
  apply (subst check_list.simps)
  apply (simp add: chk)
  apply (subst check_list.simps)
  apply (simp add: chk)
  done


text \<open>On \<open>bad_heap\<close> the checker finds that the header of the block at 4112 differs from
  its footer, prints it, and returns 0.\<close>

theorem checkheap_status_zero_witness:
  "chain_seg bad_heap (heap_listp bad_heap) [4112] 4136 \<and> GET_SIZE bad_heap (HDRP 4136) = 0 \<and>
   next_seg bad_heap (dl_start bad_heap) [4112] 0 \<and>
   in_arena bad_heap (HDRP (DSIZE + mem_heap_lo bad_heap)) 4 \<and> in_arena bad_heap (HDRP 4136) 4 \<and>
   GET bad_heap (HDRP 4112) \<noteq> GET bad_heap (FTRP bad_heap 4112) \<and>
   mm_checkheap 0 bad_heap = Some (0, [HeaderFooterMismatch]) \<and>
   checkheap 0 bad_heap = Some Continues"
proof -
  have c: "chain_seg bad_heap (heap_listp bad_heap) [4112] 4136"
    by (simp add: bad_heap_def fresh_heap_def macro_defs ld)
  have e: "GET_SIZE bad_heap (HDRP 4136) = 0"
    by (simp add: bad_heap_def fresh_heap_def macro_defs ld)
  have n: "next_seg bad_heap (dl_start bad_heap) [4112] 0"
    by (simp add: bad_heap_def fresh_heap_def get_next_def ld)
  have m: "GET bad_heap (HDRP 4112) \<noteq> GET bad_heap (FTRP bad_heap 4112)"
    by (simp add: bad_heap_def fresh_heap_def macro_defs ld)
  have a: "in_arena bad_heap (HDRP (DSIZE + mem_heap_lo bad_heap)) 4" "in_arena bad_heap (HDRP 4136) 4"
    by (simp_all add: bad_heap_def fresh_heap_def chk)
  have b: "\<forall>x\<in>set [4112]. block_reads bad_heap x"
    by (simp add: block_reads_def bad_heap_def fresh_heap_def chk)
  have l: "\<forall>x\<in>set [4112]. node_reads bad_heap x"
    by (simp add: node_reads_def bad_heap_def fresh_heap_def chk)
  from checkheap_status_zero [of 0 bad_heap "[4112]" 4136 "[4112]"] c e n a b l
  have "checkheap 0 bad_heap = Some Continues" by blast
  then show ?thesis using c e n m a bad_heap_check by simp
qed

section \<open>Header words\<close>

lemma not7: "(NOT 7 :: 'a::len word) = NOT (mask 3)"
  by (simp add: mask_eq_exp_minus_1)

lemma low_bits_zero:
  assumes "8 dvd (n::nat)" and "i < 3"
  shows "\<not> bit n i"
proof -
  obtain k where k: "n = push_bit 3 k" using assms(1) by (auto simp: dvd_def push_bit_eq_mult)
  show ?thesis using assms(2) by (simp add: k bit_push_bit_iff)
qed

lemma dvd8_and_not7:
  assumes "8 dvd n"
  shows "(word_of_nat n :: 'a::len word) AND NOT 7 = word_of_nat n"
  unfolding not7
  apply (rule bit_word_eqI)
  using low_bits_zero [OF assms]
  apply (auto simp add: bit_simps)
  done

lemma one_and_not7: "(1 :: 'a::len word) AND NOT 7 = 0"
  unfolding not7
  apply (rule bit_word_eqI)
  apply (auto simp add: bit_simps)
  done

lemma tag_size_word:
  assumes "8 dvd n"
  shows "tag n al AND NOT 7 = word_of_nat n"
  unfolding not7 tag_def
  apply (rule bit_word_eqI)
  using low_bits_zero [OF assms]
  apply (auto simp add: bit_simps)
  done

lemma tag_size:
  assumes "8 dvd n" and "n < 2 ^ 32"
  shows "unat (tag n al AND NOT 7) = n"
  unfolding tag_size_word [OF assms(1)] using assms(2) by (simp add: unat_of_nat)

lemma tag_alloc:
  assumes "8 dvd n"
  shows "tag n al AND 1 = (if al then 1 else 0)"
  unfolding tag_def
  apply (rule bit_word_eqI)
  using low_bits_zero [OF assms, of 0]
  apply (auto simp add: bit_simps intro: gr0I)
  done

lemma tag_inj:
  assumes "8 dvd n" "n < 2 ^ 32" "8 dvd n'" "n' < 2 ^ 32" "tag n al = tag n' al'"
  shows "n = n' \<and> al = al'"
proof -
  have "unat (tag n al AND NOT 7) = unat (tag n' al' AND NOT 7)" using assms(5) by simp
  then have "n = n'" unfolding tag_size [OF assms(1,2)] tag_size [OF assms(3,4)] .
  moreover have "tag n al AND 1 = tag n' al' AND 1" using assms(5) by simp
  then have "al = al'" unfolding tag_alloc [OF assms(1)] tag_alloc [OF assms(3)]
    by (simp split: if_splits)
  ultimately show ?thesis by simp
qed

lemma pack_tag1: "ucast (PACK w 1) = tag (unat w) True"
  unfolding PACK_def tag_def
  apply (rule bit_word_eqI)
  apply (auto simp add: bit_simps)
  done

lemma pack_tag0: "ucast (PACK w 0) = tag (unat w) False"
  unfolding PACK_def tag_def
  apply (rule bit_word_eqI)
  apply (auto simp add: bit_simps)
  done

section \<open>Neighbours in a list\<close>

lemma next_in_notin: "x \<notin> set fl \<Longrightarrow> next_in fl x = 0"
  by (induction fl) auto

lemma next_in_append_notin: "x \<notin> set xs \<Longrightarrow> next_in (xs @ ys) x = next_in ys x"
  by (induction xs) auto

lemma next_in_split:
  "distinct (xs @ x # ys) \<Longrightarrow> next_in (xs @ x # ys) x = (if ys = [] then 0 else hd ys)"
  by (simp add: next_in_append_notin split: list.splits)

lemma prev_in_split:
  "distinct (xs @ x # ys) \<Longrightarrow> prev_in (xs @ x # ys) x = (if xs = [] then 0 else last xs)"
proof -
  assume d: "distinct (xs @ x # ys)"
  have "distinct (rev ys @ x # rev xs)" using d by auto
  from next_in_split [OF this] show ?thesis
    by (simp add: prev_in_def hd_rev)
qed

lemma prev_in_notin: "x \<notin> set fl \<Longrightarrow> prev_in fl x = 0"
  by (simp add: prev_in_def next_in_notin)

lemma next_in_mem: "next_in fl x \<noteq> 0 \<Longrightarrow> next_in fl x \<in> set fl"
  by (induction fl) (auto split: if_splits list.splits)

lemma prev_in_mem: "prev_in fl x \<noteq> 0 \<Longrightarrow> prev_in fl x \<in> set fl"
  using next_in_mem [of "rev fl" x] by (simp add: prev_in_def)

lemma split_facts:
  assumes "distinct fl" "x \<in> set fl"
  obtains xs ys where "fl = xs @ x # ys" "x \<notin> set xs" "x \<notin> set ys"
    "next_in fl x = (if ys = [] then 0 else hd ys)"
    "prev_in fl x = (if xs = [] then 0 else last xs)"
proof -
  obtain xs ys where fl: "fl = xs @ x # ys" using assms(2) by (auto dest: split_list)
  have d: "distinct (xs @ x # ys)" using assms(1) fl by simp
  have "x \<notin> set xs" "x \<notin> set ys" using d by auto
  then show ?thesis
    using that [OF fl] next_in_split [OF d] prev_in_split [OF d] fl by simp
qed

lemma next_in_zero_iff:
  assumes "distinct fl" "0 \<notin> set fl" "x \<in> set fl"
  shows "(next_in fl x = 0) = (x = last fl)"
proof -
  obtain xs ys where fl: "fl = xs @ x # ys" and nx: "x \<notin> set ys"
    and n: "next_in fl x = (if ys = [] then 0 else hd ys)"
    using split_facts [OF assms(1,3)] by metis
  show ?thesis
  proof (cases "ys = []")
    case True
    then show ?thesis using n fl by simp
  next
    case False
    then have "hd ys \<in> set fl" "last fl = last ys" "last ys \<in> set ys" using fl by auto
    then show ?thesis using n False assms(2) nx by metis
  qed
qed

lemma prev_in_zero_iff:
  assumes "distinct fl" "0 \<notin> set fl" "x \<in> set fl"
  shows "(prev_in fl x = 0) = (x = hd fl)"
proof -
  obtain xs ys where fl: "fl = xs @ x # ys" and nx: "x \<notin> set xs"
    and p: "prev_in fl x = (if xs = [] then 0 else last xs)"
    using split_facts [OF assms(1,3)] by metis
  show ?thesis
  proof (cases "xs = []")
    case True
    then show ?thesis using p fl by simp
  next
    case False
    then have "last xs \<in> set fl" "hd fl = hd xs" "hd xs \<in> set xs" using fl by auto
    then show ?thesis using p False assms(2) nx by metis
  qed
qed

lemma prev_next:
  assumes "distinct fl" "0 \<notin> set fl" "next_in fl x \<noteq> 0"
  shows "prev_in fl (next_in fl x) = x"
proof -
  have "x \<in> set fl" using assms(3) next_in_notin by metis
  then obtain xs ys where fl: "fl = xs @ x # ys" by (auto dest: split_list)
  have n: "next_in fl x = (if ys = [] then 0 else hd ys)"
    using assms(1) unfolding fl by (rule next_in_split)
  with assms(3) obtain z zs where ys: "ys = z # zs" by (cases ys) auto
  have fl': "fl = (xs @ [x]) @ z # zs" by (simp add: fl ys)
  have "prev_in fl z = x"
    using assms(1) prev_in_split [of "xs @ [x]" z zs] unfolding fl' by simp
  then show ?thesis using n ys by simp
qed

lemma next_prev:
  assumes "distinct fl" "0 \<notin> set fl" "prev_in fl x \<noteq> 0"
  shows "next_in fl (prev_in fl x) = x"
proof -
  have "next_in (rev fl) x \<noteq> 0" using assms(3) by (simp add: prev_in_def)
  from prev_next [of "rev fl" x] this assms(1,2)
  show ?thesis by (simp add: prev_in_def)
qed

lemma next_in_ne:
  assumes "distinct fl" "0 \<notin> set fl" "x \<in> set fl"
  shows "next_in fl x \<noteq> x"
proof -
  obtain xs ys where fl: "fl = xs @ x # ys" and nx: "x \<notin> set ys"
    and n: "next_in fl x = (if ys = [] then 0 else hd ys)"
    using split_facts [OF assms(1,3)] by metis
  show ?thesis
  proof (cases "ys = []")
    case True
    have "x \<noteq> 0" using assms(2,3) by metis
    then show ?thesis using n True by simp
  next
    case False
    then have "hd ys \<in> set ys" by simp
    then show ?thesis using n False nx by auto
  qed
qed

lemma prev_in_ne:
  assumes "distinct fl" "0 \<notin> set fl" "x \<in> set fl"
  shows "prev_in fl x \<noteq> x"
  using next_in_ne [of "rev fl" x] assms by (simp add: prev_in_def)

lemma next_in_append_mem:
  "y \<in> set xs \<Longrightarrow> distinct xs \<Longrightarrow>
   next_in (xs @ zs) y = (if y = last xs then (case zs of [] \<Rightarrow> 0 | z # _ \<Rightarrow> z) else next_in xs y)"
proof (induction xs)
  case Nil
  then show ?case by simp
next
  case (Cons a xs)
  show ?case
  proof (cases "xs = []")
    case True
    then show ?thesis using Cons.prems by simp
  next
    case False
    then obtain b bs where xs: "xs = b # bs" by (cases xs) auto
    show ?thesis
    proof (cases "y = a")
      case True
      then have "y \<noteq> last xs" using Cons.prems(2) False by (metis distinct.simps(2) last_in_set)
      then show ?thesis using True False xs by simp
    next
      case False
      then have "y \<in> set xs" "distinct xs" using Cons.prems by auto
      from Cons.IH [OF this] show ?thesis using False xs by simp
    qed
  qed
qed

lemma next_in_remove1:
  assumes "distinct fl" "0 \<notin> set fl" "x \<in> set fl" "y \<noteq> x"
  shows "next_in (remove1 x fl) y = (if next_in fl y = x then next_in fl x else next_in fl y)"
proof -
  obtain xs ys where fl: "fl = xs @ x # ys" and nxs: "x \<notin> set xs" and nys: "x \<notin> set ys"
    and n: "next_in fl x = (if ys = [] then 0 else hd ys)"
    using split_facts [OF assms(1,3)] by metis
  have x0: "x \<noteq> 0" using assms(2,3) by metis
  have r: "remove1 x fl = xs @ ys" using nxs by (simp add: fl remove1_append)
  have dxs: "distinct xs" using assms(1) fl by simp
  have hd0: "(case ys of [] \<Rightarrow> 0 | z # _ \<Rightarrow> z) = (if ys = [] then 0 else hd ys)"
    by (cases ys) auto
  show ?thesis
  proof (cases "y \<in> set xs")
    case True
    have a: "next_in (xs @ ys) y = (if y = last xs then (if ys = [] then 0 else hd ys) else next_in xs y)"
      using next_in_append_mem [OF True dxs, of ys] hd0 by simp
    have b: "next_in fl y = (if y = last xs then x else next_in xs y)"
      using next_in_append_mem [OF True dxs, of "x # ys"] fl by simp
    have "next_in xs y \<noteq> x" using next_in_mem [of xs y] nxs x0 by metis
    then show ?thesis using a b r n by simp
  next
    case False
    have a: "next_in (xs @ ys) y = next_in ys y" using False by (rule next_in_append_notin)
    have b: "next_in fl y = next_in ys y"
      using next_in_append_notin [OF False, of "x # ys"] assms(4) fl by simp
    have "next_in ys y \<noteq> x" using next_in_mem [of ys y] nys x0 by metis
    then show ?thesis using a b r by simp
  qed
qed

lemma rev_remove1: "distinct fl \<Longrightarrow> rev (remove1 x fl) = remove1 x (rev fl)"
  by (induction fl) (auto simp: remove1_append remove1_idem)

lemma prev_in_remove1:
  assumes "distinct fl" "0 \<notin> set fl" "x \<in> set fl" "y \<noteq> x"
  shows "prev_in (remove1 x fl) y = (if prev_in fl y = x then prev_in fl x else prev_in fl y)"
  using next_in_remove1 [of "rev fl" x y] assms
  by (simp add: prev_in_def rev_remove1)

lemma next_in_snoc:
  assumes "distinct fl"
  shows "next_in (fl @ [x]) y = (if fl \<noteq> [] \<and> y = last fl then x else next_in fl y)"
proof (cases "y \<in> set fl")
  case True
  then have "fl \<noteq> []" by auto
  then show ?thesis using next_in_append_mem [OF True assms, of "[x]"] by simp
next
  case False
  then have "next_in (fl @ [x]) y = 0" "next_in fl y = 0" "\<not> (fl \<noteq> [] \<and> y = last fl)"
    by (auto simp: next_in_append_notin next_in_notin)
  then show ?thesis by (simp only: if_False)
qed

lemma prev_in_snoc:
  "prev_in (fl @ [x]) y = (if y = x then (if fl = [] then 0 else last fl) else prev_in fl y)"
  by (cases fl rule: rev_cases) (simp_all add: prev_in_def)

lemma hd_remove1:
  assumes "distinct fl" "x \<in> set fl" "remove1 x fl \<noteq> []"
  shows "hd (remove1 x fl) = (if hd fl = x then next_in fl x else hd fl)"
proof (cases fl)
  case Nil
  then show ?thesis using assms by simp
next
  case (Cons a as)
  then show ?thesis using assms by (cases as) auto
qed

lemma last_remove1:
  assumes "distinct fl" "x \<in> set fl" "remove1 x fl \<noteq> []"
  shows "last (remove1 x fl) = (if last fl = x then prev_in fl x else last fl)"
proof -
  have "hd (remove1 x (rev fl)) = (if hd (rev fl) = x then next_in (rev fl) x else hd (rev fl))"
    using assms by (intro hd_remove1) (auto simp: rev_remove1 [symmetric])
  moreover have "fl \<noteq> []" using assms(2) by auto
  ultimately show ?thesis
    using assms by (simp add: prev_in_def rev_remove1 [symmetric] hd_rev)
qed

lemma hd_eq_last: "distinct fl \<Longrightarrow> fl \<noteq> [] \<Longrightarrow> hd fl = last fl \<Longrightarrow> fl = [hd fl]"
  by (cases fl) (auto split: if_splits)

section \<open>The layout of a list of blocks\<close>

lemma total_simps [simp]: "total_size [] = 0" "total_size ((n, al) # bs) = n + total_size bs"
  "total_size (xs @ ys) = total_size xs + total_size ys"
  by (simp_all add: total_size_def)

lemma sizes_ok_simps [simp]: "sizes_ok []" "sizes_ok ((n, al) # bs) = (24 \<le> n \<and> 8 dvd n \<and> sizes_ok bs)"
  "sizes_ok (xs @ ys) = (sizes_ok xs \<and> sizes_ok ys)"
  by (auto simp: sizes_ok_def)

lemma layout_append: "layout a (xs @ ys) = layout a xs @ layout (a + total_size xs) ys"
  by (induction xs arbitrary: a) (auto simp: add.assoc)

lemma layout_bounds:
  "(b, m, al) \<in> set (layout a bs) \<Longrightarrow> a \<le> b \<and> b + m \<le> a + total_size bs"
  by (induction bs arbitrary: a) fastforce+

lemma layout_sizes:
  "(b, m, al) \<in> set (layout a bs) \<Longrightarrow> sizes_ok bs \<Longrightarrow> 24 \<le> m \<and> 8 dvd m"
  by (induction bs arbitrary: a) (auto split: if_splits)

lemma layout_aligned:
  "(b, m, al) \<in> set (layout a bs) \<Longrightarrow> sizes_ok bs \<Longrightarrow> 8 dvd a \<Longrightarrow> 8 dvd b"
  by (induction bs arbitrary: a) (auto split: if_splits)

lemma layout_split:
  "(b, m, al) \<in> set (layout a bs) \<Longrightarrow>
   \<exists>pre post. bs = pre @ (m, al) # post \<and> b = a + total_size pre"
proof (induction bs arbitrary: a)
  case Nil
  then show ?case by simp
next
  case (Cons x bs)
  obtain n al' where x: "x = (n, al')" by (cases x)
  show ?case
  proof (cases "(b, m, al) = (a, n, al')")
    case True
    then have "x # bs = [] @ (m, al) # bs \<and> b = a + total_size []" using x by simp
    then show ?thesis by blast
  next
    case False
    then have "(b, m, al) \<in> set (layout (a + n) bs)" using Cons.prems x by auto
    from Cons.IH [OF this] obtain pre post where
      "bs = pre @ (m, al) # post" "b = a + n + total_size pre" by blast
    then have "x # bs = (x # pre) @ (m, al) # post \<and> b = a + total_size (x # pre)"
      using x by simp
    then show ?thesis by blast
  qed
qed

lemma layout_mid: "(a + total_size pre, m, al) \<in> set (layout a (pre @ (m, al) # post))"
  by (simp add: layout_append)

lemma layout_unique:
  assumes "(b, m, al) \<in> set (layout a bs)" "(b, m', al') \<in> set (layout a bs)" "sizes_ok bs"
  shows "m = m' \<and> al = al'"
  using assms
proof (induction bs arbitrary: a)
  case Nil
  then show ?case by simp
next
  case (Cons x bs)
  obtain n al0 where x: "x = (n, al0)" by (cases x)
  have n: "24 \<le> n" using Cons.prems(3) x by simp
  have far: "\<And>k l. (b, k, l) \<in> set (layout (a + n) bs) \<Longrightarrow> b \<noteq> a"
    using layout_bounds n by fastforce
  show ?case
    using Cons.prems Cons.IH [of "a + n"] x far by auto
qed

lemma no_adj_Cons: "no_adj (x # ys) = (no_adj ys \<and> (ys \<noteq> [] \<longrightarrow> snd x \<or> snd (hd ys)))"
  by (cases ys) auto

lemma no_adj_append:
  "no_adj (xs @ ys) =
   (no_adj xs \<and> no_adj ys \<and> (xs \<noteq> [] \<and> ys \<noteq> [] \<longrightarrow> snd (last xs) \<or> snd (hd ys)))"
proof (induction xs)
  case Nil
  then show ?case by simp
next
  case (Cons x xs)
  show ?case
  proof (cases xs)
    case Nil
    then show ?thesis by (simp add: no_adj_Cons)
  next
    case (Cons y zs)
    then show ?thesis using Cons.IH by (simp add: no_adj_Cons) blast
  qed
qed

section \<open>Reading the chain\<close>

lemma load32_cong: "(\<forall>q. p \<le> q \<and> q < p + 4 \<longrightarrow> m' q = m q) \<Longrightarrow> load32 m' p = load32 m p"
  by (simp add: load32_def)

lemma load64_cong: "(\<forall>q. p \<le> q \<and> q < p + 8 \<longrightarrow> m' q = m q) \<Longrightarrow> load64 m' p = load64 m p"
  unfolding load64_def using load32_cong [of p m' m] load32_cong [of "p + 4" m' m] by simp

lemma nine_tag: "(9 :: 32 word) = tag 8 True" and one_tag: "(1 :: 32 word) = tag 0 True"
  by (simp_all add: tag_def)

lemma tags_okD:
  assumes "tags_ok s bs"
  shows "arena_ok s" "sizes_ok bs" "mem_brk s = mem_heap s + 16 + total_size bs"
    "load32 (mem s) (mem_heap s + 4) = 9" "load32 (mem s) (mem_heap s + 8) = 9"
    "load32 (mem s) (mem_brk s - 4) = 1"
    "\<And>a n al. (a, n, al) \<in> set (chain s bs) \<Longrightarrow>
       load32 (mem s) (a - 4) = tag n al \<and> load32 (mem s) (a + n - 8) = tag n al"
  using assms unfolding tags_ok_def by blast+

text \<open>Reading a block of the chain.\<close>

lemma chain_block:
  assumes "tags_ok s bs" "(a, n, al) \<in> set (chain s bs)"
  shows "24 \<le> n" "8 dvd n" "8 dvd a" "mem_heap s + 16 \<le> a" "a + n \<le> mem_brk s" "n < 2 ^ 32"
    "a + n < 2 ^ 64"
proof -
  note t = tags_okD(1-3) [OF assms(1)]
  have m: "(a, n, al) \<in> set (layout (mem_heap s + 16) bs)" using assms(2) by (simp add: chain_def)
  show "24 \<le> n" "8 dvd n" using layout_sizes [OF m t(2)] by simp_all
  have "8 dvd mem_heap s + 16" using t(1) by (simp add: arena_ok_def)
  then show "8 dvd a" using layout_aligned [OF m t(2)] by simp
  show b: "mem_heap s + 16 \<le> a" "a + n \<le> mem_brk s" using layout_bounds [OF m] t(3) by simp_all
  show "n < 2 ^ 32" "a + n < 2 ^ 64" using b t(1) by (simp_all add: arena_ok_def)
qed

lemma chain_read:
  assumes "tags_ok s bs" "(a, n, al) \<in> set (chain s bs)"
  shows "GET s (HDRP a) = tag n al" "GET s (a + n - 8) = tag n al"
    "unat (GET_SIZE s (HDRP a)) = n" "unat (GET_SIZE s (a - 4)) = n"
    "GET_ALLOC s (HDRP a) = (if al then 1 else 0)"
    "NEXT_BLKP s a = a + n" "FTRP s a = a + n - 8"
    "(ucast (GET_SIZE s (HDRP a)) :: 64 word) = word_of_nat n"
proof -
  note b = chain_block [OF assms]
  show g: "GET s (HDRP a) = tag n al" and "GET s (a + n - 8) = tag n al"
    using tags_okD(7) [OF assms] by (simp_all add: GET_def HDRP_def WSIZE_def)
  show u: "unat (GET_SIZE s (HDRP a)) = n"
    unfolding GET_SIZE_def g using b(2,6) by (rule tag_size)
  then show "unat (GET_SIZE s (a - 4)) = n" by (simp add: HDRP_def WSIZE_def)
  show "GET_ALLOC s (HDRP a) = (if al then 1 else 0)"
    unfolding GET_ALLOC_def g using b(2) by (rule tag_alloc)
  show "NEXT_BLKP s a = a + n" using u by (simp add: NEXT_BLKP_def HDRP_def)
  show "FTRP s a = a + n - 8" using u by (simp add: FTRP_def DSIZE_def)
  show "(ucast (GET_SIZE s (HDRP a)) :: 64 word) = word_of_nat n"
    using u by (metis of_nat_unat)
qed

text \<open>The neighbours of a block, from its place in the chain.\<close>

lemma chain_mid:
  "(mem_heap s + 16 + total_size pre, n, al) \<in> set (chain s (pre @ (n, al) # post))"
  unfolding chain_def by (rule layout_mid)

lemma chain_after:
  "(mem_heap s + 16 + total_size pre + n, m, al') \<in> set (chain s (pre @ (n, al) # (m, al') # post))"
  using layout_mid [of "mem_heap s + 16" "pre @ [(n, al)]" m al' post] by (simp add: chain_def ac_simps)

lemma chain_before:
  "(mem_heap s + 16 + total_size pre, m, al') \<in> set (chain s (pre @ (m, al') # (n, al) # post))"
  by (rule chain_mid)

lemma next_is_epilogue:
  assumes "tags_ok s (pre @ [(n, al)])" "a = mem_heap s + 16 + total_size pre"
  shows "GET_ALLOC s (HDRP (NEXT_BLKP s a)) = 1" "GET_SIZE s (HDRP (NEXT_BLKP s a)) = 0"
    "NEXT_BLKP s a = mem_brk s"
proof -
  have m: "(a, n, al) \<in> set (chain s (pre @ [(n, al)]))" using chain_mid assms(2) by simp
  have nx: "NEXT_BLKP s a = a + n" using chain_read(6) [OF assms(1) m] .
  have brk: "mem_brk s = a + n" using tags_okD(3) [OF assms(1)] assms(2) by simp
  show "NEXT_BLKP s a = mem_brk s" using nx brk by simp
  have h: "HDRP (NEXT_BLKP s a) = mem_brk s - 4" using nx brk by (simp add: HDRP_def WSIZE_def)
  have "GET s (mem_brk s - 4) = 1" using tags_okD(6) [OF assms(1)] by (simp add: GET_def)
  then have e: "GET s (HDRP (NEXT_BLKP s a)) = tag 0 True"
    unfolding h one_tag .
  show "GET_ALLOC s (HDRP (NEXT_BLKP s a)) = 1"
    unfolding GET_ALLOC_def e by (simp add: tag_alloc)
  show "GET_SIZE s (HDRP (NEXT_BLKP s a)) = 0"
    unfolding GET_SIZE_def e using tag_size_word [of 0 True] by simp
qed

lemma prev_is_prologue:
  assumes "tags_ok s bs" "a = mem_heap s + 16"
  shows "GET_ALLOC s (HDRP (PREV_BLKP s a)) = 1"
proof -
  have a8: "a - DSIZE = mem_heap s + 8" using assms(2) by (simp add: DSIZE_def)
  have "GET s (mem_heap s + 8) = 9" using tags_okD(5) [OF assms(1)] by (simp add: GET_def)
  then have f: "GET s (a - DSIZE) = tag 8 True" unfolding a8 nine_tag .
  have "unat (GET_SIZE s (a - DSIZE)) = 8"
    unfolding GET_SIZE_def f by (rule tag_size) simp_all
  then have p: "HDRP (PREV_BLKP s a) = mem_heap s + 4"
    using assms(2) by (simp add: PREV_BLKP_def HDRP_def WSIZE_def)
  have "GET s (mem_heap s + 4) = 9" using tags_okD(4) [OF assms(1)] by (simp add: GET_def)
  then have "GET s (mem_heap s + 4) = tag 8 True" unfolding nine_tag .
  then show ?thesis unfolding p GET_ALLOC_def by (simp add: tag_alloc)
qed

lemma prev_is_block:
  assumes "tags_ok s (pre @ (p, alp) # (n, al) # post)" "a = mem_heap s + 16 + total_size pre + p"
  shows "PREV_BLKP s a = a - p" "GET_ALLOC s (HDRP (PREV_BLKP s a)) = (if alp then 1 else 0)"
    "(a - p, p, alp) \<in> set (chain s (pre @ (p, alp) # (n, al) # post))"
proof -
  let ?bs = "pre @ (p, alp) # (n, al) # post"
  have m: "(a - p, p, alp) \<in> set (chain s ?bs)" using chain_before [of s pre p alp] assms(2) by simp
  then show "(a - p, p, alp) \<in> set (chain s ?bs)" .
  note b = chain_block [OF assms(1) m]
  have f: "GET s (a - DSIZE) = tag p alp"
    using chain_read(2) [OF assms(1) m] assms(2) b by (simp add: DSIZE_def)
  have "unat (GET_SIZE s (a - DSIZE)) = p"
    unfolding GET_SIZE_def f using b(2,6) by (rule tag_size)
  then show pr: "PREV_BLKP s a = a - p" by (simp add: PREV_BLKP_def)
  show "GET_ALLOC s (HDRP (PREV_BLKP s a)) = (if alp then 1 else 0)"
    unfolding pr using chain_read(5) [OF assms(1) m] .
qed

section \<open>Reading the free list\<close>

lemma list_okD:
  assumes "list_ok s fl"
  shows "distinct fl" "dl_start s = (if fl = [] then 0 else hd fl)"
    "dl_end s = (if fl = [] then 0 else last fl)"
    "\<And>x. x \<in> set fl \<Longrightarrow> 0 < x \<and> x < 2 ^ 64 \<and>
        load64 (mem s) x = word_of_nat (prev_in fl x) \<and>
        load64 (mem s) (x + 8) = word_of_nat (next_in fl x)"
    "\<And>x y. x \<in> set fl \<Longrightarrow> y \<in> set fl \<Longrightarrow> x \<noteq> y \<Longrightarrow> x + 16 \<le> y \<or> y + 16 \<le> x"
    "0 \<notin> set fl"
  using assms unfolding list_ok_def by (blast, blast, blast, blast, blast, fastforce)

lemma list_ok_bound:
  assumes "list_ok s fl"
  shows "next_in fl x < 2 ^ 64" "prev_in fl x < 2 ^ 64"
proof -
  show "next_in fl x < 2 ^ 64"
    using next_in_mem [of fl x] list_okD(4) [OF assms, of "next_in fl x"] by (cases "next_in fl x = 0") auto
  show "prev_in fl x < 2 ^ 64"
    using prev_in_mem [of fl x] list_okD(4) [OF assms, of "prev_in fl x"] by (cases "prev_in fl x = 0") auto
qed

lemma list_ok_read:
  assumes "list_ok s fl" "x \<in> set fl"
  shows "get_next s x = next_in fl x" "get_prev s x = prev_in fl x"
  using list_okD(4) [OF assms] list_ok_bound [OF assms(1), of x]
  by (simp_all add: get_next_def get_prev_def unat_of_nat)

lemma prev_in_eq_iff:
  assumes "list_ok s fl" "x \<in> set fl" "y \<in> set fl"
  shows "(prev_in fl y = x) = (y = next_in fl x)"
proof
  note d = list_okD(1,6) [OF assms(1)]
  assume "prev_in fl y = x"
  then have "prev_in fl y \<noteq> 0" using assms(2) d(2) by metis
  from next_prev [OF d this] show "y = next_in fl x" using \<open>prev_in fl y = x\<close> by simp
next
  note d = list_okD(1,6) [OF assms(1)]
  assume "y = next_in fl x"
  then have "next_in fl x \<noteq> 0" using assms(3) d(2) by metis
  from prev_next [OF d this] show "prev_in fl y = x" using \<open>y = next_in fl x\<close> by simp
qed

lemma next_in_eq_iff:
  assumes "list_ok s fl" "x \<in> set fl" "y \<in> set fl"
  shows "(next_in fl y = x) = (y = prev_in fl x)"
  using prev_in_eq_iff [OF assms(1,3,2)] by auto

lemma list_frame:
  assumes "list_ok s fl" "dl_start s' = dl_start s" "dl_end s' = dl_end s"
    and "\<And>x q. x \<in> set fl \<Longrightarrow> x \<le> q \<Longrightarrow> q < x + 16 \<Longrightarrow> mem s' q = mem s q"
  shows "list_ok s' fl"
proof -
  have "load64 (mem s') x = load64 (mem s) x \<and> load64 (mem s') (x + 8) = load64 (mem s) (x + 8)"
    if "x \<in> set fl" for x
    using assms(4) [OF that] by (auto intro!: load64_cong)
  then show ?thesis
    using assms(1-3) unfolding list_ok_def by simp
qed

section \<open>Insertion into the free list\<close>

lemma PUT_simps [simp]:
  "mem (PUT p v s) = store32 (mem s) p (ucast v)"
  "mem_heap (PUT p v s) = mem_heap s" "mem_brk (PUT p v s) = mem_brk s"
  "mem_max_addr (PUT p v s) = mem_max_addr s" "heap_listp (PUT p v s) = heap_listp s"
  "dl_start (PUT p v s) = dl_start s" "dl_end (PUT p v s) = dl_end s"
  by (simp_all add: PUT_def)

lemma add_freeblock_simps [simp]:
  "mem_heap (add_freeblock x s) = mem_heap s" "mem_brk (add_freeblock x s) = mem_brk s"
  "mem_max_addr (add_freeblock x s) = mem_max_addr s" "heap_listp (add_freeblock x s) = heap_listp s"
  "dl_start (add_freeblock x s) = (if dl_start s \<noteq> 0 then dl_start s else x)"
  "dl_end (add_freeblock x s) = x"
  by (simp_all add: add_freeblock_def Let_def set_prev_def set_next_def)

lemma add_freeblock_mem:
  "mem (add_freeblock x s) =
     (if dl_start s \<noteq> 0
      then store64 (store64 (store64 (mem s) x (word_of_nat (dl_end s))) (dl_end s + 8) (word_of_nat x)) (x + 8) 0
      else store64 (store64 (mem s) (x + 8) 0) x 0)"
  by (simp add: add_freeblock_def Let_def set_prev_def set_next_def)

lemma remove_freeblock_simps [simp]:
  "mem_heap (remove_freeblock x s) = mem_heap s" "mem_brk (remove_freeblock x s) = mem_brk s"
  "mem_max_addr (remove_freeblock x s) = mem_max_addr s" "heap_listp (remove_freeblock x s) = heap_listp s"
  by (simp_all add: remove_freeblock_def Let_def set_prev_def set_next_def)

lemma store64_link_other:
  assumes "q < x \<or> x + 16 \<le> q"
  shows "store64 m x v q = m q" "store64 m (x + 8) v q = m q"
  using assms by (auto intro: store64_apply_other)

lemma list_ok_nonempty:
  assumes "list_ok s fl" "fl \<noteq> []"
  shows "dl_start s = hd fl" "dl_end s = last fl" "hd fl \<in> set fl" "last fl \<in> set fl"
    "dl_start s \<noteq> 0" "dl_end s \<noteq> 0"
proof -
  note d = list_okD [OF assms(1)]
  show a: "dl_start s = hd fl" "dl_end s = last fl" using d(2,3) assms(2) by simp_all
  show b: "hd fl \<in> set fl" "last fl \<in> set fl" using assms(2) by simp_all
  show "dl_start s \<noteq> 0" "dl_end s \<noteq> 0" using d(4) [OF b(1)] d(4) [OF b(2)] a by simp_all
qed

lemma add_freeblock_ok:
  assumes l: "list_ok s fl" and nin: "x \<notin> set fl" and x0: "0 < x" and x64: "x < 2 ^ 64"
    and ap: "\<And>y. y \<in> set fl \<Longrightarrow> x + 16 \<le> y \<or> y + 16 \<le> x"
  shows "list_ok (add_freeblock x s) (fl @ [x])"
    and "\<And>q. (\<forall>y\<in>set (fl @ [x]). q < y \<or> y + 16 \<le> q) \<Longrightarrow> mem (add_freeblock x s) q = mem s q"
proof -
  note d = list_okD [OF l]
  let ?s' = "add_freeblock x s"
  show "mem ?s' q = mem s q" if q: "\<forall>y\<in>set (fl @ [x]). q < y \<or> y + 16 \<le> q" for q
  proof (cases "fl = []")
    case True
    then have "dl_start s = 0" using d(2) by simp
    then show ?thesis using q by (simp add: add_freeblock_mem store64_link_other)
  next
    case False
    then have e: "dl_end s = last fl" "last fl \<in> set fl" "dl_start s \<noteq> 0"
      using list_ok_nonempty [OF l] by simp_all
    have "q < last fl \<or> last fl + 16 \<le> q" "q < x \<or> x + 16 \<le> q" using q e(2) by auto
    then show ?thesis using e by (simp add: add_freeblock_mem store64_link_other)
  qed
  show "list_ok ?s' (fl @ [x])"
  proof (cases "fl = []")
    case True
    then have st: "dl_start s = 0" using d(2) by simp
    have m: "mem ?s' = store64 (store64 (mem s) (x + 8) 0) x 0" using st by (simp add: add_freeblock_mem)
    show ?thesis
      unfolding list_ok_def using True x0 x64 st
      by (simp add: m load64_store64 prev_in_def)
  next
    case False
    then have e: "dl_end s = last fl" "last fl \<in> set fl" "dl_start s \<noteq> 0" "dl_start s = hd fl"
      using list_ok_nonempty [OF l] by simp_all
    let ?e = "last fl"
    have m: "mem ?s' = store64 (store64 (store64 (mem s) x (word_of_nat ?e)) (?e + 8) (word_of_nat x)) (x + 8) 0"
      using e by (simp add: add_freeblock_mem)
    have ex: "x + 16 \<le> ?e \<or> ?e + 16 \<le> x" using ap e(2) by blast
    have px: "load64 (mem ?s') x = word_of_nat ?e"
      unfolding m using ex by (auto simp: load64_store64)
    have nx: "load64 (mem ?s') (x + 8) = 0"
      unfolding m by (simp add: load64_store64)
    have py: "load64 (mem ?s') y = load64 (mem s) y" if "y \<in> set fl" for y
    proof -
      have "x + 16 \<le> y \<or> y + 16 \<le> x" using ap that by blast
      moreover have "y = ?e \<or> ?e + 16 \<le> y \<or> y + 16 \<le> ?e" using d(5) [OF that e(2)] by blast
      ultimately show ?thesis unfolding m by (auto simp: load64_store64)
    qed
    have ny: "load64 (mem ?s') (y + 8) = (if y = ?e then word_of_nat x else load64 (mem s) (y + 8))"
      if "y \<in> set fl" for y
    proof -
      have "x + 16 \<le> y \<or> y + 16 \<le> x" using ap that by blast
      moreover have "y = ?e \<or> ?e + 16 \<le> y \<or> y + 16 \<le> ?e" using d(5) [OF that e(2)] by blast
      ultimately show ?thesis unfolding m by (auto simp: load64_store64)
    qed
    have links: "0 < y \<and> y < 2 ^ 64 \<and> load64 (mem ?s') y = word_of_nat (prev_in (fl @ [x]) y) \<and>
        load64 (mem ?s') (y + 8) = word_of_nat (next_in (fl @ [x]) y)" if "y \<in> set (fl @ [x])" for y
    proof (cases "y = x")
      case True
      have "next_in fl x = 0" using nin by (rule next_in_notin)
      then show ?thesis using True px nx x0 x64 False nin e(2)
        by (auto simp: prev_in_snoc next_in_snoc [OF d(1)])
    next
      case F: False
      then have y: "y \<in> set fl" using that by simp
      show ?thesis using d(4) [OF y] py [OF y] ny [OF y] F False
        by (auto simp: prev_in_snoc next_in_snoc [OF d(1)])
    qed
    have apart: "a + 16 \<le> b \<or> b + 16 \<le> a" if "a \<in> set (fl @ [x])" "b \<in> set (fl @ [x])" "a \<noteq> b" for a b
      using that ap d(5) by (cases "a = x"; cases "b = x") auto
    show ?thesis
      unfolding list_ok_def using d(1) nin e False links apart by (simp add: Ball_def)
  qed
qed

section \<open>Removal from the free list\<close>

lemma remove_freeblock_cases:
  assumes l: "list_ok s fl" and xin: "x \<in> set fl"
  defines "pv \<equiv> prev_in fl x" and "nx \<equiv> next_in fl x"
  shows "fl = [x] \<and> remove_freeblock x s = s\<lparr>dl_start := 0, dl_end := 0\<rparr> \<or>
         remove1 x fl \<noteq> [] \<and>
         mem (remove_freeblock x s) =
           (if pv = 0 then (if nx = 0 then mem s else store64 (mem s) nx 0)
            else if nx = 0 then store64 (mem s) (pv + 8) 0
            else store64 (store64 (mem s) (pv + 8) (word_of_nat nx)) nx (word_of_nat pv)) \<and>
         dl_start (remove_freeblock x s) = hd (remove1 x fl) \<and>
         dl_end (remove_freeblock x s) = last (remove1 x fl) \<and>
         (pv = 0 \<longrightarrow> nx \<noteq> 0)"
proof -
  note d = list_okD [OF l]
  have ne: "fl \<noteq> []" using xin by auto
  note n = list_ok_nonempty [OF l ne]
  have rd: "get_next s x = nx" "get_prev s x = pv"
    using list_ok_read [OF l xin] by (simp_all add: pv_def nx_def)
  have pz: "(pv = 0) = (x = hd fl)" unfolding pv_def using d(1,6) xin by (rule prev_in_zero_iff)
  have nz: "(nx = 0) = (x = last fl)" unfolding nx_def using d(1,6) xin by (rule next_in_zero_iff)
  show ?thesis
  proof (cases "hd fl = last fl")
    case True
    then have "fl = [hd fl]" using hd_eq_last [OF d(1) ne] by simp
    then have "fl = [x]" using xin by (metis empty_iff empty_set set_ConsD)
    then show ?thesis using True n by (simp add: remove_freeblock_def)
  next
    case False
    have r: "remove1 x fl \<noteq> []"
    proof
      assume "remove1 x fl = []"
      then have "set fl - {x} = {}" using d(1) by (metis set_remove1_eq empty_set)
      then have "hd fl = x" "last fl = x" using n(3,4) by auto
      then show False using False by simp
    qed
    note hr = hd_remove1 [OF d(1) xin r] and lr = last_remove1 [OF d(1) xin r]
    have pin: "pv \<noteq> 0 \<Longrightarrow> pv \<in> set fl" unfolding pv_def by (rule prev_in_mem)
    have pvx: "pv \<noteq> x" unfolding pv_def using d(1,6) xin by (rule prev_in_ne)
    show ?thesis
    proof (cases "hd fl = x")
      case True
      then have "nx \<noteq> 0" "pv = 0" using False nz pz by auto
      then show ?thesis
        using True False n rd r hr lr
        by (simp add: remove_freeblock_def Let_def set_prev_def nx_def)
    next
      case hx: False
      show ?thesis
      proof (cases "last fl = x")
        case True
        then have "nx = 0" "pv \<noteq> 0" using hx nz pz by auto
        then show ?thesis
          using True hx False n rd r hr lr
          by (simp add: remove_freeblock_def Let_def set_next_def pv_def)
      next
        case lx: False
        then have z: "nx \<noteq> 0" "pv \<noteq> 0" using hx nz pz by auto
        have ap: "pv + 16 \<le> x \<or> x + 16 \<le> pv" using d(5) [OF pin [OF z(2)] xin] pvx by blast
        let ?s1 = "set_next pv nx s"
        have "load64 (mem ?s1) (x + 8) = load64 (mem s) (x + 8)" "load64 (mem ?s1) x = load64 (mem s) x"
          using ap by (auto simp: set_next_def load64_store64)
        then have rd1: "get_next ?s1 x = nx" "get_prev ?s1 x = pv"
          using rd by (simp_all add: get_next_def get_prev_def)
        have "remove_freeblock x s = set_prev (get_next ?s1 x) (get_prev ?s1 x) ?s1"
          using hx lx False n rd by (simp add: remove_freeblock_def Let_def)
        then have "remove_freeblock x s = set_prev nx pv ?s1" using rd1 by simp
        then show ?thesis
          using z r hr lr hx lx n by (simp add: set_prev_def set_next_def)
      qed
    qed
  qed
qed

lemma remove_freeblock_ok:
  assumes l: "list_ok s fl" and xin: "x \<in> set fl"
  shows "list_ok (remove_freeblock x s) (remove1 x fl)"
    and "\<And>q. (\<forall>y\<in>set fl. y \<noteq> x \<longrightarrow> q < y \<or> y + 16 \<le> q) \<Longrightarrow>
           mem (remove_freeblock x s) q = mem s q"
proof -
  note d = list_okD [OF l]
  define pv where "pv = prev_in fl x"
  define nx where "nx = next_in fl x"
  let ?s' = "remove_freeblock x s"
  let ?fl' = "remove1 x fl"
  have pin: "pv \<noteq> 0 \<Longrightarrow> pv \<in> set fl" unfolding pv_def by (rule prev_in_mem)
  have nin: "nx \<noteq> 0 \<Longrightarrow> nx \<in> set fl" unfolding nx_def by (rule next_in_mem)
  have pvx: "pv \<noteq> x" unfolding pv_def using d(1,6) xin by (rule prev_in_ne)
  have nxx: "nx \<noteq> x" unfolding nx_def using d(1,6) xin by (rule next_in_ne)
  have sfl: "set ?fl' = set fl - {x}" using d(1) by simp
  consider (single) "fl = [x]" "?s' = s\<lparr>dl_start := 0, dl_end := 0\<rparr>"
    | (more) "?fl' \<noteq> []"
        "mem ?s' = (if pv = 0 then (if nx = 0 then mem s else store64 (mem s) nx 0)
            else if nx = 0 then store64 (mem s) (pv + 8) 0
            else store64 (store64 (mem s) (pv + 8) (word_of_nat nx)) nx (word_of_nat pv))"
        "dl_start ?s' = hd ?fl'" "dl_end ?s' = last ?fl'"
    using remove_freeblock_cases [OF l xin] unfolding pv_def nx_def by blast
  note cs = this
  show "mem ?s' q = mem s q" if q: "\<forall>y\<in>set fl. y \<noteq> x \<longrightarrow> q < y \<or> y + 16 \<le> q" for q
  proof (cases rule: cs)
    case single
    then show ?thesis by simp
  next
    case more
    have "pv \<noteq> 0 \<Longrightarrow> q < pv \<or> pv + 16 \<le> q" "nx \<noteq> 0 \<Longrightarrow> q < nx \<or> nx + 16 \<le> q"
      using q pin nin pvx nxx by auto
    then show ?thesis unfolding more(2) by (simp add: store64_link_other)
  qed
  show "list_ok ?s' ?fl'"
  proof (cases rule: cs)
    case single
    then show ?thesis by (simp add: list_ok_def)
  next
    case more
    have links: "0 < y \<and> y < 2 ^ 64 \<and> load64 (mem ?s') y = word_of_nat (prev_in ?fl' y) \<and>
        load64 (mem ?s') (y + 8) = word_of_nat (next_in ?fl' y)" if y: "y \<in> set ?fl'" for y
    proof -
      have yin: "y \<in> set fl" and yx: "y \<noteq> x" using y sfl by auto
      note dy = d(4) [OF yin]
      have p': "prev_in ?fl' y = (if y = nx then pv else prev_in fl y)"
        using prev_in_remove1 [OF d(1,6) xin yx] prev_in_eq_iff [OF l xin yin]
        by (simp add: pv_def nx_def)
      have n': "next_in ?fl' y = (if y = pv then nx else next_in fl y)"
        using next_in_remove1 [OF d(1,6) xin yx] next_in_eq_iff [OF l xin yin]
        by (simp add: pv_def nx_def)
      have ap: "pv \<noteq> 0 \<Longrightarrow> y = pv \<or> pv + 16 \<le> y \<or> y + 16 \<le> pv"
        "nx \<noteq> 0 \<Longrightarrow> y = nx \<or> nx + 16 \<le> y \<or> y + 16 \<le> nx"
        using d(5) [OF yin] pin nin by blast+
      have y0: "y \<noteq> 0" using dy by simp
      have a: "load64 (mem ?s') y = (if y = nx then word_of_nat pv else load64 (mem s) y)"
        unfolding more(2) using ap y0 by (auto simp: load64_store64 load64_store64_other)
      have b: "load64 (mem ?s') (y + 8) = (if y = pv then word_of_nat nx else load64 (mem s) (y + 8))"
        unfolding more(2) using ap y0 by (auto simp: load64_store64 load64_store64_other)
      show ?thesis unfolding a b p' n' using dy by auto
    qed
    have "distinct ?fl'" using d(1) by simp
    moreover have "a + 16 \<le> b \<or> b + 16 \<le> a" if "a \<in> set ?fl'" "b \<in> set ?fl'" "a \<noteq> b" for a b
      using that d(5) sfl by auto
    ultimately show ?thesis
      unfolding list_ok_def using more(1,3,4) links by (simp add: Ball_def)
  qed
qed

lemma remove_freeblock_dl_ok:
  assumes "list_ok s fl" "x \<in> set fl"
  shows "set (remove1 x fl) = set fl - {x}"
  using list_okD(1) [OF assms(1)] by simp

section \<open>Stores of tags\<close>

lemma write_tags_read:
  assumes "8 \<le> n" "4 \<le> bp"
  shows "load32 (write_tags m bp n al) (bp - 4) = tag n al"
    "load32 (write_tags m bp n al) (bp + n - 8) = tag n al"
proof -
  have "bp + n - 8 + 4 \<le> bp - 4 \<or> bp - 4 + 4 \<le> bp + n - 8" using assms by arith
  then show "load32 (write_tags m bp n al) (bp - 4) = tag n al"
    by (simp add: write_tags_def load32_store32_other load32_store32_same)
  show "load32 (write_tags m bp n al) (bp + n - 8) = tag n al"
    by (simp add: write_tags_def load32_store32_same)
qed

lemma write_tags_other:
  assumes "8 \<le> n" "4 \<le> bp" "q < bp - 4 \<or> bp + n - 4 \<le> q \<or> (bp \<le> q \<and> q < bp + n - 8)"
  shows "write_tags m bp n al q = m q"
proof -
  have "q < bp - 4 \<or> bp - 4 + 4 \<le> q" using assms by arith
  moreover have "q < bp + n - 8 \<or> bp + n - 8 + 4 \<le> q" using assms by arith
  ultimately show ?thesis by (simp add: write_tags_def store32_apply_other)
qed

lemma write_tags_load32_other:
  assumes "8 \<le> n" "4 \<le> bp" "q + 4 \<le> bp - 4 \<or> bp + n - 4 \<le> q \<or> (bp \<le> q \<and> q + 4 \<le> bp + n - 8)"
  shows "load32 (write_tags m bp n al) q = load32 m q"
  by (rule load32_cong) (use assms in \<open>auto intro!: write_tags_other\<close>)

lemma PUT_block:
  assumes "8 dvd unat w" "unat w < 2 ^ 32" "c = (if al then 1 else 0)"
  shows "PUT (FTRP (PUT (HDRP bp) (PACK w c) s) bp) (PACK w c) (PUT (HDRP bp) (PACK w c) s) =
         s\<lparr>mem := write_tags (mem s) bp (unat w) al\<rparr>"
    and "NEXT_BLKP (PUT (HDRP bp) (PACK w c) s) bp = bp + unat w"
proof -
  let ?s1 = "PUT (HDRP bp) (PACK w c) s"
  have v: "(ucast (PACK w c) :: 32 word) = tag (unat w) al"
    using assms(3) pack_tag1 [of w] pack_tag0 [of w] by (cases al) simp_all
  have "GET ?s1 (HDRP bp) = tag (unat w) al"
    by (simp add: GET_def v load32_store32_same)
  then have u: "unat (GET_SIZE ?s1 (HDRP bp)) = unat w"
    unfolding GET_SIZE_def using tag_size [OF assms(1,2)] by simp
  then have f: "FTRP ?s1 bp = bp + unat w - 8" by (simp add: FTRP_def DSIZE_def)
  show "NEXT_BLKP ?s1 bp = bp + unat w" using u by (simp add: NEXT_BLKP_def HDRP_def)
  show "PUT (FTRP ?s1 bp) (PACK w c) ?s1 = s\<lparr>mem := write_tags (mem s) bp (unat w) al\<rparr>"
    unfolding f by (simp add: PUT_def v write_tags_def HDRP_def WSIZE_def)
qed

lemma chain_apart:
  assumes "(a, n, al) \<in> set (chain s bs)" "(b, m, al') \<in> set (chain s bs)" "sizes_ok bs"
  shows "(a = b \<and> n = m \<and> al = al') \<or> a + n \<le> b \<or> b + m \<le> a"
proof -
  let ?f = "mem_heap s + 16"
  obtain pre post where bs: "bs = pre @ (n, al) # post" and a: "a = ?f + total_size pre"
    using layout_split assms(1) unfolding chain_def by blast
  have "chain s bs = layout ?f pre @ (a, n, al) # layout (a + n) post"
    by (simp add: chain_def bs layout_append a)
  then consider "(b, m, al') \<in> set (layout ?f pre)" | "(b, m, al') = (a, n, al)"
    | "(b, m, al') \<in> set (layout (a + n) post)" using assms(2) by auto
  then show ?thesis
  proof cases
    case 1
    then show ?thesis using layout_bounds [OF 1] a by simp
  next
    case 2
    then show ?thesis by simp
  next
    case 3
    then show ?thesis using layout_bounds [OF 3] by simp
  qed
qed

lemma tags_frame:
  assumes t: "tags_ok s bs"
    and f: "mem_heap s' = mem_heap s" "mem_brk s' = mem_brk s" "mem_max_addr s' = mem_max_addr s"
    and out: "\<And>q. (\<And>a n al. (a, n, al) \<in> set (chain s bs) \<Longrightarrow> q < a \<or> a + n - 8 \<le> q) \<Longrightarrow>
                mem s' q = mem s q"
  shows "tags_ok s' bs"
proof -
  note d = tags_okD [OF t]
  have c: "chain s' bs = chain s bs" using f by (simp add: chain_def)
  have ar: "arena_ok s'" using d(1) f by (simp add: arena_ok_def)
  have p1: "load32 (mem s') (mem_heap s + 4) = load32 (mem s) (mem_heap s + 4)"
  proof (rule load32_cong, intro allI impI, rule out)
    fix q a n al assume "mem_heap s + 4 \<le> q \<and> q < mem_heap s + 4 + 4" "(a, n, al) \<in> set (chain s bs)"
    then show "q < a \<or> a + n - 8 \<le> q" using chain_block(4) [OF t] by fastforce
  qed
  have p2: "load32 (mem s') (mem_heap s + 8) = load32 (mem s) (mem_heap s + 8)"
  proof (rule load32_cong, intro allI impI, rule out)
    fix q a n al assume "mem_heap s + 8 \<le> q \<and> q < mem_heap s + 8 + 4" "(a, n, al) \<in> set (chain s bs)"
    then show "q < a \<or> a + n - 8 \<le> q" using chain_block(4) [OF t] by fastforce
  qed
  have p3: "load32 (mem s') (mem_brk s - 4) = load32 (mem s) (mem_brk s - 4)"
  proof (rule load32_cong, intro allI impI, rule out)
    fix q a n al assume "mem_brk s - 4 \<le> q \<and> q < mem_brk s - 4 + 4" "(a, n, al) \<in> set (chain s bs)"
    then show "q < a \<or> a + n - 8 \<le> q" using chain_block(5) [OF t, of a n al] by arith
  qed
  have blk: "load32 (mem s') (b - 4) = load32 (mem s) (b - 4) \<and>
             load32 (mem s') (b + m - 8) = load32 (mem s) (b + m - 8)"
    if b: "(b, m, al') \<in> set (chain s bs)" for b m al'
  proof
    note bb = chain_block [OF t b]
    show "load32 (mem s') (b - 4) = load32 (mem s) (b - 4)"
    proof (rule load32_cong, intro allI impI, rule out)
      fix q a n al assume q: "b - 4 \<le> q \<and> q < b - 4 + 4" and m: "(a, n, al) \<in> set (chain s bs)"
      show "q < a \<or> a + n - 8 \<le> q"
        using chain_apart [OF m b d(2)] q bb chain_block [OF t m] by auto
    qed
    show "load32 (mem s') (b + m - 8) = load32 (mem s) (b + m - 8)"
    proof (rule load32_cong, intro allI impI, rule out)
      fix q a n al assume q: "b + m - 8 \<le> q \<and> q < b + m - 8 + 4" and m: "(a, n, al) \<in> set (chain s bs)"
      show "q < a \<or> a + n - 8 \<le> q"
        using chain_apart [OF m b d(2)] q bb chain_block [OF t m] by auto
    qed
  qed
  show ?thesis
    unfolding tags_ok_def c f using ar d p1 p2 p3 blk by simp
qed

section \<open>The free list in the heap\<close>

lemma heap_wfD:
  assumes "heap_wf s bs fl"
  shows "tags_ok s bs" "list_ok s fl" "set fl \<subseteq> free_slots s bs"
  using assms by (simp_all add: heap_wf_def)

lemma heap_inv_wf: "heap_inv s bs fl \<Longrightarrow> heap_wf s bs fl"
  by (simp add: heap_inv_def heap_wf_def)

lemma free_slotsD:
  assumes "x \<in> free_slots s bs"
  obtains n where "(x, n, False) \<in> set (chain s bs)"
  using assms by (auto simp: free_slots_def)

lemma free_apart:
  assumes t: "tags_ok s bs" and x: "x \<in> free_slots s bs" and y: "y \<in> free_slots s bs" and ne: "x \<noteq> y"
  shows "x + 16 \<le> y \<or> y + 16 \<le> x"
proof -
  obtain n where n: "(x, n, False) \<in> set (chain s bs)" using x by (rule free_slotsD)
  obtain m where m: "(y, m, False) \<in> set (chain s bs)" using y by (rule free_slotsD)
  show ?thesis
    using chain_apart [OF n m tags_okD(2) [OF t]] ne chain_block(1) [OF t n] chain_block(1) [OF t m]
    by auto
qed

lemma free_pos:
  assumes t: "tags_ok s bs" and x: "x \<in> free_slots s bs"
  shows "0 < x" "x < 2 ^ 64"
proof -
  obtain n where n: "(x, n, False) \<in> set (chain s bs)" using x by (rule free_slotsD)
  show "0 < x" "x < 2 ^ 64" using chain_block(4,7) [OF t n] by simp_all
qed

text \<open>Bytes that lie in no link area of a free block.\<close>

lemma link_frame_tags:
  assumes t: "tags_ok s bs"
    and f: "mem_heap s' = mem_heap s" "mem_brk s' = mem_brk s" "mem_max_addr s' = mem_max_addr s"
    and out: "\<And>q. (\<forall>y\<in>free_slots s bs. q < y \<or> y + 16 \<le> q) \<Longrightarrow> mem s' q = mem s q"
  shows "tags_ok s' bs"
proof (rule tags_frame [OF t f])
  fix q assume a: "\<And>a n al. (a, n, al) \<in> set (chain s bs) \<Longrightarrow> q < a \<or> a + n - 8 \<le> q"
  show "mem s' q = mem s q"
  proof (rule out, rule ballI)
    fix y assume "y \<in> free_slots s bs"
    then obtain n where n: "(y, n, False) \<in> set (chain s bs)" by (rule free_slotsD)
    show "q < y \<or> y + 16 \<le> q" using a [OF n] chain_block(1) [OF t n] by auto
  qed
qed

lemma wf_add:
  assumes w: "heap_wf s bs fl" and x: "x \<in> free_slots s bs" and nin: "x \<notin> set fl"
  shows "heap_wf (add_freeblock x s) bs (fl @ [x])"
    and "\<And>q. (\<forall>y\<in>free_slots s bs. q < y \<or> y + 16 \<le> q) \<Longrightarrow> mem (add_freeblock x s) q = mem s q"
proof -
  note d = heap_wfD [OF w]
  have ap: "x + 16 \<le> y \<or> y + 16 \<le> x" if "y \<in> set fl" for y
    using free_apart [OF d(1) x, of y] that d(3) nin by auto
  note a = add_freeblock_ok [OF d(2) nin free_pos [OF d(1) x] ap]
  show fr: "mem (add_freeblock x s) q = mem s q"
    if "\<forall>y\<in>free_slots s bs. q < y \<or> y + 16 \<le> q" for q
    using that d(3) x by (intro a(2)) auto
  have "tags_ok (add_freeblock x s) bs"
    by (rule link_frame_tags [OF d(1)]) (simp_all add: fr)
  moreover have "free_slots (add_freeblock x s) bs = free_slots s bs"
    by (simp add: free_slots_def chain_def)
  ultimately show "heap_wf (add_freeblock x s) bs (fl @ [x])"
    using a(1) d(3) x by (simp add: heap_wf_def)
qed

lemma wf_remove:
  assumes w: "heap_wf s bs fl" and x: "x \<in> set fl"
  shows "heap_wf (remove_freeblock x s) bs (remove1 x fl)"
    and "\<And>q. (\<forall>y\<in>free_slots s bs. q < y \<or> y + 16 \<le> q) \<Longrightarrow> mem (remove_freeblock x s) q = mem s q"
proof -
  note d = heap_wfD [OF w]
  note a = remove_freeblock_ok [OF d(2) x]
  show fr: "mem (remove_freeblock x s) q = mem s q"
    if "\<forall>y\<in>free_slots s bs. q < y \<or> y + 16 \<le> q" for q
    using that d(3) by (intro a(2)) auto
  have "tags_ok (remove_freeblock x s) bs"
    by (rule link_frame_tags [OF d(1)]) (simp_all add: fr)
  moreover have "free_slots (remove_freeblock x s) bs = free_slots s bs"
    by (simp add: free_slots_def chain_def)
  moreover have "set (remove1 x fl) \<subseteq> set fl" by (rule set_remove1_subset)
  ultimately show "heap_wf (remove_freeblock x s) bs (remove1 x fl)"
    using a(1) d(3) by (auto simp add: heap_wf_def)
qed

section \<open>Rewriting a stretch of the chain\<close>

lemma chain_parts:
  "set (chain s (pre @ mid @ post)) =
     set (layout (mem_heap s + 16) pre) \<union> set (layout (mem_heap s + 16 + total_size pre) mid) \<union>
     set (layout (mem_heap s + 16 + total_size pre + total_size mid) post)"
  by (simp add: chain_def layout_append Un_assoc)

lemma retag:
  assumes t: "tags_ok s (pre @ old @ post)"
    and so: "sizes_ok new" and tot: "total_size new = total_size old"
    and f: "mem_heap s' = mem_heap s" "mem_brk s' = mem_brk s" "mem_max_addr s' = mem_max_addr s"
    and a: "a = mem_heap s + 16 + total_size pre"
    and out: "\<And>q. q < a - 4 \<or> a + total_size old - 4 \<le> q \<Longrightarrow> mem s' q = mem s q"
    and new: "\<And>b k al. (b, k, al) \<in> set (layout a new) \<Longrightarrow>
                load32 (mem s') (b - 4) = tag k al \<and> load32 (mem s') (b + k - 8) = tag k al"
  shows "tags_ok s' (pre @ new @ post)"
proof -
  note d = tags_okD [OF t]
  let ?N = "total_size old"
  have ar: "arena_ok s'" using d(1) f by (simp add: arena_ok_def)
  have sz: "sizes_ok (pre @ new @ post)" using d(2) so by simp
  have brk: "mem_brk s' = mem_heap s' + 16 + total_size (pre @ new @ post)" using d(3) f tot by simp
  have brk': "mem_brk s = a + ?N + total_size post" using d(3) a by simp
  have p1: "load32 (mem s') (mem_heap s + 4) = load32 (mem s) (mem_heap s + 4)"
    by (rule load32_cong) (use a in \<open>auto intro!: out\<close>)
  have p2: "load32 (mem s') (mem_heap s + 8) = load32 (mem s) (mem_heap s + 8)"
    by (rule load32_cong) (use a in \<open>auto intro!: out\<close>)
  have p3: "load32 (mem s') (mem_brk s - 4) = load32 (mem s) (mem_brk s - 4)"
    by (rule load32_cong) (use brk' in \<open>auto intro!: out\<close>)
  have blk: "load32 (mem s') (b - 4) = tag m al \<and> load32 (mem s') (b + m - 8) = tag m al"
    if b: "(b, m, al) \<in> set (chain s' (pre @ new @ post))" for b m al
  proof -
    from b consider "(b, m, al) \<in> set (layout (mem_heap s + 16) pre)"
      | "(b, m, al) \<in> set (layout a new)"
      | "(b, m, al) \<in> set (layout (a + ?N) post)"
      unfolding chain_parts f a tot by blast
    then show ?thesis
    proof cases
      case 1
      then have m: "(b, m, al) \<in> set (chain s (pre @ old @ post))" unfolding chain_parts by simp
      note bb = chain_block [OF t m] layout_bounds [OF 1]
      have "load32 (mem s') (b - 4) = load32 (mem s) (b - 4)"
        by (rule load32_cong) (use bb a in \<open>auto intro!: out\<close>)
      moreover have "load32 (mem s') (b + m - 8) = load32 (mem s) (b + m - 8)"
        by (rule load32_cong) (use bb a in \<open>auto intro!: out\<close>)
      ultimately show ?thesis using d(7) [OF m] by simp
    next
      case 2
      then show ?thesis by (rule new)
    next
      case 3
      then have m: "(b, m, al) \<in> set (chain s (pre @ old @ post))" unfolding chain_parts a by simp
      note bb = chain_block [OF t m] layout_bounds [OF 3]
      have "load32 (mem s') (b - 4) = load32 (mem s) (b - 4)"
        by (rule load32_cong) (use bb a in \<open>auto intro!: out\<close>)
      moreover have "load32 (mem s') (b + m - 8) = load32 (mem s) (b + m - 8)"
        by (rule load32_cong) (use bb a in \<open>auto intro!: out\<close>)
      ultimately show ?thesis using d(7) [OF m] by simp
    qed
  qed
  show ?thesis
    unfolding tags_ok_def using ar sz brk p1 p2 p3 d(4,5,6) blk f by simp
qed

text \<open>Rewriting the tags of a stretch of the chain keeps the free list when the links of its
  members are not touched and its members stay free blocks.\<close>

lemma wf_retag:
  assumes w: "heap_wf s (pre @ old @ post) fl"
    and so: "sizes_ok new" and tot: "total_size new = total_size old"
    and f: "mem_heap s' = mem_heap s" "mem_brk s' = mem_brk s" "mem_max_addr s' = mem_max_addr s"
      "dl_start s' = dl_start s" "dl_end s' = dl_end s"
    and a: "a = mem_heap s + 16 + total_size pre"
    and out: "\<And>q. q < a - 4 \<or> a + total_size old - 4 \<le> q \<Longrightarrow> mem s' q = mem s q"
    and new: "\<And>b k al. (b, k, al) \<in> set (layout a new) \<Longrightarrow>
                load32 (mem s') (b - 4) = tag k al \<and> load32 (mem s') (b + k - 8) = tag k al"
    and keep: "\<And>x n. x \<in> set fl \<Longrightarrow> (x, n, False) \<in> set (layout a old) \<Longrightarrow>
                (\<exists>k. (x, k, False) \<in> set (layout a new)) \<and>
                (\<forall>q. x \<le> q \<and> q < x + 16 \<longrightarrow> mem s' q = mem s q)"
  shows "heap_wf s' (pre @ new @ post) fl"
proof -
  note d = heap_wfD [OF w]
  let ?N = "total_size old"
  have t': "tags_ok s' (pre @ new @ post)"
    by (rule retag [OF d(1) so tot f(1-3) a out new])
  have each: "x \<in> free_slots s' (pre @ new @ post) \<and> (\<forall>q. x \<le> q \<and> q < x + 16 \<longrightarrow> mem s' q = mem s q)"
    if x: "x \<in> set fl" for x
  proof -
    from x d(3) obtain n where n: "(x, n, False) \<in> set (chain s (pre @ old @ post))"
      by (auto simp: free_slots_def)
    note bb = chain_block [OF d(1) n]
    from n consider "(x, n, False) \<in> set (layout (mem_heap s + 16) pre)"
      | "(x, n, False) \<in> set (layout a old)"
      | "(x, n, False) \<in> set (layout (a + ?N) post)"
      unfolding chain_parts a by blast
    then show ?thesis
    proof cases
      case 1
      note lb = layout_bounds [OF 1]
      have "x \<in> free_slots s' (pre @ new @ post)"
        unfolding free_slots_def chain_parts f using 1 by blast
      moreover have "mem s' q = mem s q" if "x \<le> q \<and> q < x + 16" for q
        by (rule out) (use that lb bb a in auto)
      ultimately show ?thesis by simp
    next
      case 2
      from keep [OF x 2] show ?thesis
        unfolding free_slots_def chain_parts f a by blast
    next
      case 3
      note lb = layout_bounds [OF 3]
      have "x \<in> free_slots s' (pre @ new @ post)"
        unfolding free_slots_def chain_parts f tot using 3 a by blast
      moreover have "mem s' q = mem s q" if "x \<le> q \<and> q < x + 16" for q
        by (rule out) (use that lb bb a in auto)
      ultimately show ?thesis by simp
    qed
  qed
  have "list_ok s' fl"
    by (rule list_frame [OF d(2) f(4,5)]) (use each in auto)
  then show ?thesis using t' each by (auto simp: heap_wf_def)
qed

section \<open>Coalescing\<close>

lemma next_alloc_read:
  assumes t: "tags_ok s (pre @ (n, al) # post)" and bp: "bp = mem_heap s + 16 + total_size pre"
  shows "NEXT_BLKP s bp = bp + n"
    and "GET_ALLOC s (HDRP (NEXT_BLKP s bp)) = (if post = [] \<or> snd (hd post) then 1 else 0)"
proof -
  have m: "(bp, n, al) \<in> set (chain s (pre @ (n, al) # post))" unfolding bp by (rule chain_mid)
  show nx: "NEXT_BLKP s bp = bp + n" by (rule chain_read(6) [OF t m])
  show "GET_ALLOC s (HDRP (NEXT_BLKP s bp)) = (if post = [] \<or> snd (hd post) then 1 else 0)"
  proof (cases post)
    case Nil
    then show ?thesis using next_is_epilogue(1) [of s pre n al bp] t bp by simp
  next
    case (Cons b post')
    obtain m' al' where b: "b = (m', al')" by (cases b)
    have "(bp + n, m', al') \<in> set (chain s (pre @ (n, al) # post))"
      unfolding Cons b bp by (rule chain_after)
    from chain_read(5) [OF t this] show ?thesis unfolding nx using Cons b by simp
  qed
qed

lemma prev_alloc_read:
  assumes t: "tags_ok s (pre @ (n, al) # post)" and bp: "bp = mem_heap s + 16 + total_size pre"
  shows "GET_ALLOC s (HDRP (PREV_BLKP s bp)) = (if pre = [] \<or> snd (last pre) then 1 else 0)"
    and "pre \<noteq> [] \<Longrightarrow> PREV_BLKP s bp = bp - fst (last pre)"
proof -
  show "GET_ALLOC s (HDRP (PREV_BLKP s bp)) = (if pre = [] \<or> snd (last pre) then 1 else 0)"
  proof (cases pre rule: rev_cases)
    case Nil
    then show ?thesis using prev_is_prologue [OF t] bp by simp
  next
    case (snoc pre' b)
    obtain p alp where b: "b = (p, alp)" by (cases b)
    have t': "tags_ok s (pre' @ (p, alp) # (n, al) # post)" using t snoc b by simp
    have "bp = mem_heap s + 16 + total_size pre' + p" using bp snoc b by simp
    from prev_is_block(2) [OF t' this] show ?thesis using snoc b by simp
  qed
  show "PREV_BLKP s bp = bp - fst (last pre)" if "pre \<noteq> []"
  proof (cases pre rule: rev_cases)
    case Nil
    then show ?thesis using that by simp
  next
    case (snoc pre' b)
    obtain p alp where b: "b = (p, alp)" by (cases b)
    have t': "tags_ok s (pre' @ (p, alp) # (n, al) # post)" using t snoc b by simp
    have "bp = mem_heap s + 16 + total_size pre' + p" using bp snoc b by simp
    from prev_is_block(1) [OF t' this] show ?thesis using snoc b by simp
  qed
qed

text \<open>The merge of a free block with the free block after it, as \<^verbatim>\<open>coalesce\<close> does it.\<close>

lemma merge_next:
  assumes w: "heap_wf s (pre @ (n, False) # (m, False) # post) fl"
    and full: "free_slots s (pre @ (n, False) # (m, False) # post) \<subseteq> set fl"
    and bp: "bp = mem_heap s + 16 + total_size pre"
  defines "s1 \<equiv> remove_freeblock (NEXT_BLKP s bp) s"
  defines "sz \<equiv> (ucast (GET_SIZE s (HDRP bp)) :: 64 word) + ucast (GET_SIZE s1 (HDRP (NEXT_BLKP s1 bp)))"
  defines "s2 \<equiv> PUT (HDRP bp) (PACK sz 0) s1"
  defines "s3 \<equiv> PUT (FTRP s2 bp) (PACK sz 0) s2"
  shows "heap_wf s3 (pre @ (n + m, False) # post) (remove1 (bp + n) fl)"
    and "free_slots s3 (pre @ (n + m, False) # post) \<subseteq> set (remove1 (bp + n) fl)"
    and "mem_heap s3 = mem_heap s" "mem_brk s3 = mem_brk s" "mem_max_addr s3 = mem_max_addr s"
      "heap_listp s3 = heap_listp s"
    and "NEXT_BLKP s2 bp = bp + n + m"
proof -
  let ?bs = "pre @ (n, False) # (m, False) # post"
  let ?bs' = "pre @ (n + m, False) # post"
  let ?fl' = "remove1 (bp + n) fl"
  note d = heap_wfD [OF w]
  have mb: "(bp, n, False) \<in> set (chain s ?bs)" unfolding bp by (rule chain_mid)
  have mn: "(bp + n, m, False) \<in> set (chain s ?bs)" unfolding bp by (rule chain_after)
  note bb = chain_block [OF d(1) mb]
  note bn = chain_block [OF d(1) mn]
  have nx: "NEXT_BLKP s bp = bp + n" by (rule chain_read(6) [OF d(1) mb])
  have nin: "bp + n \<in> set fl" using full mn by (auto simp: free_slots_def)
  have s1: "s1 = remove_freeblock (bp + n) s" by (simp add: s1_def nx)
  have w1: "heap_wf s1 ?bs ?fl'" unfolding s1 by (rule wf_remove(1) [OF w nin])
  note d1 = heap_wfD [OF w1]
  have f1: "mem_heap s1 = mem_heap s" "mem_brk s1 = mem_brk s" "mem_max_addr s1 = mem_max_addr s"
    "heap_listp s1 = heap_listp s" by (simp_all add: s1)
  have c1: "chain s1 ?bs = chain s ?bs" by (simp add: chain_def f1)
  have mb1: "(bp, n, False) \<in> set (chain s1 ?bs)" and mn1: "(bp + n, m, False) \<in> set (chain s1 ?bs)"
    using mb mn c1 by simp_all
  have nx1: "NEXT_BLKP s1 bp = bp + n" by (rule chain_read(6) [OF d1(1) mb1])
  have lt: "n + m < 2 ^ 32"
    using bn(5) bb(4) tags_okD(1) [OF d(1)] by (simp add: arena_ok_def)
  have "sz = word_of_nat n + word_of_nat m"
    unfolding sz_def nx1 chain_read(8) [OF d(1) mb] chain_read(8) [OF d1(1) mn1] ..
  then have szn: "sz = word_of_nat (n + m)" by simp
  have lt64: "n + m < 2 ^ 64" using lt by simp
  have usz: "unat sz = n + m" unfolding szn unat_of_nat using lt64 by simp
  have dv: "8 dvd unat sz" using usz bb(2) bn(2) by simp
  have lt': "unat sz < 2 ^ 32" using usz lt by simp
  have s3: "s3 = s1\<lparr>mem := write_tags (mem s1) bp (n + m) False\<rparr>"
    unfolding s3_def s2_def using PUT_block(1) [OF dv lt', of 0 False bp s1] usz by simp
  show "NEXT_BLKP s2 bp = bp + n + m"
    unfolding s2_def using PUT_block(2) [OF dv lt', of 0 False bp s1] usz by simp
  show f3: "mem_heap s3 = mem_heap s" "mem_brk s3 = mem_brk s" "mem_max_addr s3 = mem_max_addr s"
    "heap_listp s3 = heap_listp s" by (simp_all add: s3 f1)
  have w1': "heap_wf s1 (pre @ [(n, False), (m, False)] @ post) ?fl'" using w1 by simp
  have dist: "distinct fl" using list_okD(1) [OF d(2)] .
  have "heap_wf s3 (pre @ [(n + m, False)] @ post) ?fl'"
  proof (rule wf_retag [OF w1', where a = bp])
    show "sizes_ok [(n + m, False)]" using bb(1,2) bn(2) by simp
    show "total_size [(n + m, False)] = total_size [(n, False), (m, False)]" by simp
    show "mem_heap s3 = mem_heap s1" "mem_brk s3 = mem_brk s1" "mem_max_addr s3 = mem_max_addr s1"
      "dl_start s3 = dl_start s1" "dl_end s3 = dl_end s1" by (simp_all add: s3)
    show "bp = mem_heap s1 + 16 + total_size pre" using bp f1 by simp
    show "mem s3 q = mem s1 q" if "q < bp - 4 \<or> bp + total_size [(n, False), (m, False)] - 4 \<le> q" for q
      unfolding s3 using that bb(1,4) by (simp, intro write_tags_other) auto
    show "load32 (mem s3) (b - 4) = tag k al \<and> load32 (mem s3) (b + k - 8) = tag k al"
      if "(b, k, al) \<in> set (layout bp [(n + m, False)])" for b k al
      using that bb(1,4) unfolding s3 by (simp add: write_tags_read)
    show "(\<exists>k. (x, k, False) \<in> set (layout bp [(n + m, False)])) \<and>
          (\<forall>q. x \<le> q \<and> q < x + 16 \<longrightarrow> mem s3 q = mem s1 q)"
      if x: "x \<in> set ?fl'" and l: "(x, k, False) \<in> set (layout bp [(n, False), (m, False)])" for x k
    proof -
      have "x \<noteq> bp + n" using x dist by simp
      then have xb: "x = bp" using l by auto
      have "mem s3 q = mem s1 q" if "x \<le> q \<and> q < x + 16" for q
        unfolding s3 using that bb(1,4) bn(1) xb by (simp, intro write_tags_other) auto
      then show ?thesis using xb by simp
    qed
  qed
  then show w3: "heap_wf s3 ?bs' ?fl'" by simp
  have "free_slots s3 ?bs' \<subseteq> free_slots s ?bs"
  proof
    fix x assume "x \<in> free_slots s3 ?bs'"
    then obtain k where "(x, k, False) \<in> set (chain s3 (pre @ [(n + m, False)] @ post))"
      by (auto simp: free_slots_def)
    then have "(x, k, False) \<in> set (layout (mem_heap s + 16) pre) \<or> x = bp \<or>
        (x, k, False) \<in> set (layout (bp + n + m) post)"
      unfolding chain_parts f3 bp by (auto simp: add.assoc)
    moreover have "set (chain s (pre @ [(n, False), (m, False)] @ post)) =
        set (layout (mem_heap s + 16) pre) \<union> {(bp, n, False), (bp + n, m, False)} \<union>
        set (layout (bp + n + m) post)"
      unfolding chain_parts bp by (auto simp: add.assoc)
    ultimately show "x \<in> free_slots s ?bs" unfolding free_slots_def by auto
  qed
  moreover have "bp + n \<notin> free_slots s3 ?bs'"
  proof
    assume "bp + n \<in> free_slots s3 ?bs'"
    then obtain k where k: "(bp + n, k, False) \<in> set (chain s3 ?bs')" by (auto simp: free_slots_def)
    have "(bp, n + m, False) \<in> set (chain s3 ?bs')" unfolding bp f3 [symmetric] by (rule chain_mid)
    from chain_apart [OF k this tags_okD(2) [OF heap_wfD(1) [OF w3]]] bb(1) bn(1)
      chain_block(1) [OF heap_wfD(1) [OF w3] k]
    show False by auto
  qed
  ultimately show "free_slots s3 ?bs' \<subseteq> set ?fl'" using full dist by auto
qed

lemma coalesce_right:
  assumes w: "heap_wf s (pre @ (n, False) # fs2 @ post) fl"
    and full: "free_slots s (pre @ (n, False) # fs2 @ post) \<subseteq> set fl"
    and fr: "\<forall>b\<in>set fs2. \<not> snd b"
    and pa: "pre = [] \<or> snd (last pre)" and po: "post = [] \<or> snd (hd post)"
    and bp: "bp = mem_heap s + 16 + total_size pre"
  shows "\<exists>s' fl'. coalesce bp s = Some (bp, s') \<and>
           heap_wf s' (pre @ (n + total_size fs2, False) # post) fl' \<and>
           free_slots s' (pre @ (n + total_size fs2, False) # post) \<subseteq> set fl' \<and>
           mem_heap s' = mem_heap s \<and> mem_brk s' = mem_brk s \<and> mem_max_addr s' = mem_max_addr s"
  using w full fr bp
proof (induction fs2 arbitrary: n s fl)
  case Nil
  note t = heap_wfD(1) [OF Nil(1)]
  have "GET_ALLOC s (HDRP (PREV_BLKP s bp)) = 1"
    using prev_alloc_read(1) [OF t Nil(4)] pa by simp
  moreover have "GET_ALLOC s (HDRP (NEXT_BLKP s bp)) = 1"
    using next_alloc_read(2) [OF t Nil(4)] po by simp
  ultimately have "coalesce bp s = Some (bp, s)"
    by (subst coalesce.simps) simp
  then show ?case using Nil by auto
next
  case (Cons b fs2)
  obtain m where b: "b = (m, False)" using Cons.prems(3) by (cases b) auto
  let ?bs = "pre @ (n, False) # (m, False) # fs2 @ post"
  have w: "heap_wf s ?bs fl" and full: "free_slots s ?bs \<subseteq> set fl"
    using Cons.prems(1,2) b by simp_all
  note t = heap_wfD(1) [OF w]
  define s1 where "s1 = remove_freeblock (NEXT_BLKP s bp) s"
  define sz where "sz = (ucast (GET_SIZE s (HDRP bp)) :: 64 word) + ucast (GET_SIZE s1 (HDRP (NEXT_BLKP s1 bp)))"
  define s2 where "s2 = PUT (HDRP bp) (PACK sz 0) s1"
  define s3 where "s3 = PUT (FTRP s2 bp) (PACK sz 0) s2"
  have m: "heap_wf s3 (pre @ (n + m, False) # fs2 @ post) (remove1 (bp + n) fl)"
    "free_slots s3 (pre @ (n + m, False) # fs2 @ post) \<subseteq> set (remove1 (bp + n) fl)"
    "mem_heap s3 = mem_heap s" "mem_brk s3 = mem_brk s" "mem_max_addr s3 = mem_max_addr s"
    unfolding s3_def s2_def sz_def s1_def by (rule merge_next [OF w full Cons.prems(4)])+
  have pv: "GET_ALLOC s (HDRP (PREV_BLKP s bp)) = 1"
    using prev_alloc_read(1) [OF t Cons.prems(4)] pa by simp
  have nx: "GET_ALLOC s (HDRP (NEXT_BLKP s bp)) = 0"
    using next_alloc_read(2) [OF t Cons.prems(4)] by simp
  have un: "coalesce bp s =
      (if GET_ALLOC s3 (HDRP (NEXT_BLKP s3 bp)) = 0 then coalesce bp s3 else Some (bp, s3))"
    by (subst coalesce.simps) (simp add: pv nx Let_def s1_def sz_def s2_def s3_def)
  have bp3: "bp = mem_heap s3 + 16 + total_size pre" using Cons.prems(4) m(3) by simp
  note t3 = heap_wfD(1) [OF m(1)]
  have nx3: "GET_ALLOC s3 (HDRP (NEXT_BLKP s3 bp)) = (if fs2 @ post = [] \<or> snd (hd (fs2 @ post)) then 1 else 0)"
    by (rule next_alloc_read(2) [OF t3 bp3])
  show ?case
  proof (cases fs2)
    case Nil
    then have "coalesce bp s = Some (bp, s3)" using un nx3 po by simp
    then show ?thesis using m Nil b by auto
  next
    case (Cons c fs2')
    then have "\<not> snd (hd (fs2 @ post))" using Cons.prems(3) \<open>\<forall>b\<in>set (b # fs2). \<not> snd b\<close> by simp
    then have c: "coalesce bp s = coalesce bp s3" using un nx3 Cons by simp
    have "\<forall>b\<in>set fs2. \<not> snd b" using \<open>\<forall>b\<in>set (b # fs2). \<not> snd b\<close> by simp
    from Cons.IH [OF m(1) m(2) this bp3]
    show ?thesis unfolding c using m(3-5) b by (auto simp: add.assoc)
  qed
qed

lemma coalesce_cluster:
  assumes w: "heap_wf s (pre @ fs1 @ (n, False) # fs2 @ post) fl"
    and full: "free_slots s (pre @ fs1 @ (n, False) # fs2 @ post) \<subseteq> set fl"
    and fr1: "\<forall>b\<in>set fs1. \<not> snd b" and fr2: "\<forall>b\<in>set fs2. \<not> snd b"
    and pa: "pre = [] \<or> snd (last pre)" and po: "post = [] \<or> snd (hd post)"
    and bp: "bp = mem_heap s + 16 + total_size pre + total_size fs1"
  shows "\<exists>s' fl'. coalesce bp s = Some (mem_heap s + 16 + total_size pre, s') \<and>
           heap_wf s' (pre @ (total_size fs1 + n + total_size fs2, False) # post) fl' \<and>
           free_slots s' (pre @ (total_size fs1 + n + total_size fs2, False) # post) \<subseteq> set fl' \<and>
           mem_heap s' = mem_heap s \<and> mem_brk s' = mem_brk s \<and> mem_max_addr s' = mem_max_addr s"
  using w full fr1 fr2 bp
proof (induction fs1 arbitrary: n fs2 bp rule: rev_induct)
  case Nil
  from coalesce_right [OF _ _ Nil(4) pa po, of s n fl bp] Nil(1,2,5)
  show ?case by simp
next
  case (snoc b fs1)
  obtain p where b: "b = (p, False)" using snoc.prems(3) by (cases b) auto
  have e: "pre @ (fs1 @ [b]) @ (n, False) # fs2 @ post = (pre @ fs1 @ [(p, False)]) @ (n, False) # fs2 @ post"
    using b by simp
  have t: "tags_ok s ((pre @ fs1 @ [(p, False)]) @ (n, False) # fs2 @ post)"
    using heap_wfD(1) [OF snoc.prems(1)] unfolding e .
  have bp': "bp = mem_heap s + 16 + total_size (pre @ fs1 @ [(p, False)])"
    using snoc.prems(5) b by simp
  have pv: "GET_ALLOC s (HDRP (PREV_BLKP s bp)) = 0"
    using prev_alloc_read(1) [OF t bp'] by simp
  have pb: "PREV_BLKP s bp = bp - p"
    using prev_alloc_read(2) [OF t bp'] by simp
  have pv': "GET_ALLOC s (HDRP (bp - p)) = 0" using pv pb by simp
  have un: "coalesce bp s = coalesce (bp - p) s"
    by (subst coalesce.simps) (simp add: pv' pb Let_def)
  have e2: "pre @ (fs1 @ [b]) @ (n, False) # fs2 @ post = pre @ fs1 @ (p, False) # ((n, False) # fs2) @ post"
    using b by simp
  have w': "heap_wf s (pre @ fs1 @ (p, False) # ((n, False) # fs2) @ post) fl"
    using snoc.prems(1) unfolding e2 .
  have full': "free_slots s (pre @ fs1 @ (p, False) # ((n, False) # fs2) @ post) \<subseteq> set fl"
    using snoc.prems(2) unfolding e2 .
  have f1: "\<forall>b\<in>set fs1. \<not> snd b" using snoc.prems(3) by simp
  have f2: "\<forall>b\<in>set ((n, False) # fs2). \<not> snd b" using snoc.prems(4) by simp
  have bp'': "bp - p = mem_heap s + 16 + total_size pre + total_size fs1"
    using snoc.prems(5) b by simp
  from snoc.IH [OF w' full' f1 f2 bp'']
  show ?case unfolding un using b by (auto simp: ac_simps)
qed

text \<open>With nothing free around the cluster the result is a heap without adjacent free
  blocks.\<close>

lemma coalesce_inv:
  assumes w: "heap_wf s (pre @ fs1 @ (n, False) # fs2 @ post) fl"
    and full: "free_slots s (pre @ fs1 @ (n, False) # fs2 @ post) \<subseteq> set fl"
    and fr1: "\<forall>b\<in>set fs1. \<not> snd b" and fr2: "\<forall>b\<in>set fs2. \<not> snd b"
    and pa: "pre = [] \<or> snd (last pre)" and po: "post = [] \<or> snd (hd post)"
    and na: "no_adj pre" "no_adj post"
    and bp: "bp = mem_heap s + 16 + total_size pre + total_size fs1"
  shows "\<exists>s' fl'. coalesce bp s = Some (mem_heap s + 16 + total_size pre, s') \<and>
           heap_inv s' (pre @ (total_size fs1 + n + total_size fs2, False) # post) fl' \<and>
           mem_heap s' = mem_heap s \<and> mem_brk s' = mem_brk s \<and> mem_max_addr s' = mem_max_addr s"
proof -
  let ?bs' = "pre @ (total_size fs1 + n + total_size fs2, False) # post"
  from coalesce_cluster [OF w full fr1 fr2 pa po bp]
  obtain s' fl' where c: "coalesce bp s = Some (mem_heap s + 16 + total_size pre, s')"
    and w': "heap_wf s' ?bs' fl'" and full': "free_slots s' ?bs' \<subseteq> set fl'"
    and f: "mem_heap s' = mem_heap s" "mem_brk s' = mem_brk s" "mem_max_addr s' = mem_max_addr s"
    by blast
  have "no_adj ?bs'"
    using na pa po by (auto simp: no_adj_append no_adj_Cons)
  then have "heap_inv s' ?bs' fl'"
    using w' full' by (auto simp: heap_inv_def heap_wf_def)
  then show ?thesis using c f by blast
qed

lemma split_free_left:
  "\<exists>pre' fs. pre = pre' @ fs \<and> (\<forall>b\<in>set fs. \<not> snd b) \<and> (pre' = [] \<or> snd (last pre'))"
proof (induction pre rule: rev_induct)
  case Nil
  then show ?case by simp
next
  case (snoc b pre)
  then obtain pre' fs where p: "pre = pre' @ fs" "\<forall>b\<in>set fs. \<not> snd b" "pre' = [] \<or> snd (last pre')"
    by blast
  show ?case
  proof (cases "snd b")
    case True
    then have "pre @ [b] = (pre @ [b]) @ [] \<and> (\<forall>b\<in>set []. \<not> snd b) \<and>
      (pre @ [b] = [] \<or> snd (last (pre @ [b])))" by simp
    then show ?thesis by blast
  next
    case False
    then have "pre @ [b] = pre' @ (fs @ [b]) \<and> (\<forall>b\<in>set (fs @ [b]). \<not> snd b) \<and>
      (pre' = [] \<or> snd (last pre'))" using p by simp
    then show ?thesis by blast
  qed
qed

lemma split_free_right:
  "\<exists>fs post'. post = fs @ post' \<and> (\<forall>b\<in>set fs. \<not> snd b) \<and> (post' = [] \<or> snd (hd post'))"
proof (induction post)
  case Nil
  then show ?case by simp
next
  case (Cons b post)
  then obtain fs post' where p: "post = fs @ post'" "\<forall>b\<in>set fs. \<not> snd b" "post' = [] \<or> snd (hd post')"
    by blast
  show ?case
  proof (cases "snd b")
    case True
    then have "b # post = [] @ (b # post) \<and> (\<forall>b\<in>set []. \<not> snd b) \<and>
      (b # post = [] \<or> snd (hd (b # post)))" by simp
    then show ?thesis by blast
  next
    case False
    then have "b # post = (b # fs) @ post' \<and> (\<forall>b\<in>set (b # fs). \<not> snd b) \<and>
      (post' = [] \<or> snd (hd post'))" using p by simp
    then show ?thesis by blast
  qed
qed

lemma layout_flag:
  "(x, k, al) \<in> set (layout a bs) \<Longrightarrow> \<exists>b\<in>set bs. snd b = al"
proof (induction bs arbitrary: a)
  case Nil
  then show ?case by simp
next
  case (Cons b bs)
  obtain n al' where b: "b = (n, al')" by (cases b)
  from Cons.prems have "(x, k, al) = (a, n, al') \<or> (x, k, al) \<in> set (layout (a + n) bs)"
    unfolding b by simp
  then show ?case using Cons.IH b by fastforce
qed

lemma used_slots_parts:
  "used_slots s (pre @ mid @ post) =
     {x. \<exists>k. (x, k, True) \<in> set (layout (mem_heap s + 16) pre)} \<union>
     {x. \<exists>k. (x, k, True) \<in> set (layout (mem_heap s + 16 + total_size pre) mid)} \<union>
     {x. \<exists>k. (x, k, True) \<in> set (layout (mem_heap s + 16 + total_size pre + total_size mid) post)}"
  unfolding used_slots_def chain_parts by blast

lemma free_slots_parts:
  "free_slots s (pre @ mid @ post) =
     {x. \<exists>k. (x, k, False) \<in> set (layout (mem_heap s + 16) pre)} \<union>
     {x. \<exists>k. (x, k, False) \<in> set (layout (mem_heap s + 16 + total_size pre) mid)} \<union>
     {x. \<exists>k. (x, k, False) \<in> set (layout (mem_heap s + 16 + total_size pre + total_size mid) post)}"
  unfolding free_slots_def chain_parts by blast

lemma used_slots_blocks: "used_slots s bs = fst ` used_blocks s bs"
  by (force simp: used_slots_def used_blocks_def)

lemma used_blocks_parts:
  "used_blocks s (pre @ mid @ post) =
     {(x, k). (x, k, True) \<in> set (layout (mem_heap s + 16) pre)} \<union>
     {(x, k). (x, k, True) \<in> set (layout (mem_heap s + 16 + total_size pre) mid)} \<union>
     {(x, k). (x, k, True) \<in> set (layout (mem_heap s + 16 + total_size pre + total_size mid) post)}"
  unfolding used_blocks_def chain_parts by blast

lemma used_cluster:
  assumes "\<forall>b\<in>set mid. \<not> snd b" "\<forall>b\<in>set mid'. \<not> snd b" "total_size mid' = total_size mid"
    "mem_heap s' = mem_heap s"
  shows "used_blocks s' (pre @ mid' @ post) = used_blocks s (pre @ mid @ post)"
proof -
  have "{(x, k). (x, k, True) \<in> set (layout a mid)} = {}" for a
    using layout_flag [of _ _ True a mid] assms(1) by auto
  moreover have "{(x, k). (x, k, True) \<in> set (layout a mid')} = {}" for a
    using layout_flag [of _ _ True a mid'] assms(2) by auto
  ultimately show ?thesis unfolding used_blocks_parts assms(3,4) by simp
qed

text \<open>\<^verbatim>\<open>coalesce\<close> on a free block of the list, in a heap where no other two neighbours are
  free.\<close>

lemma coalesce_at:
  assumes w: "heap_wf s (pre @ (n, False) # post) fl"
    and full: "free_slots s (pre @ (n, False) # post) \<subseteq> set fl"
    and na: "no_adj pre" "no_adj post"
    and bp: "bp = mem_heap s + 16 + total_size pre"
  shows "\<exists>r s' fl' pre' N post'. coalesce bp s = Some (r, s') \<and>
           heap_inv s' (pre' @ (N, False) # post') fl' \<and>
           mem_heap s' = mem_heap s \<and> mem_brk s' = mem_brk s \<and> mem_max_addr s' = mem_max_addr s \<and>
           used_blocks s' (pre' @ (N, False) # post') = used_blocks s (pre @ (n, False) # post) \<and>
           r = mem_heap s + 16 + total_size pre' \<and> n \<le> N \<and> r \<le> bp \<and> bp + n \<le> r + N"
proof -
  obtain pre' fs1 where p: "pre = pre' @ fs1" "\<forall>b\<in>set fs1. \<not> snd b" "pre' = [] \<or> snd (last pre')"
    using split_free_left by blast
  obtain fs2 post' where q: "post = fs2 @ post'" "\<forall>b\<in>set fs2. \<not> snd b" "post' = [] \<or> snd (hd post')"
    using split_free_right by blast
  have e: "pre @ (n, False) # post = pre' @ fs1 @ (n, False) # fs2 @ post'" using p q by simp
  have na': "no_adj pre'" "no_adj post'" using na p(1) q(1) by (simp_all add: no_adj_append)
  have bp': "bp = mem_heap s + 16 + total_size pre' + total_size fs1" using bp p(1) by simp
  let ?N = "total_size fs1 + n + total_size fs2"
  from coalesce_inv [OF w [unfolded e] full [unfolded e] p(2) q(2) p(3) q(3) na' bp']
  obtain s' fl' where c: "coalesce bp s = Some (mem_heap s + 16 + total_size pre', s')"
    and i: "heap_inv s' (pre' @ (?N, False) # post') fl'"
    and f: "mem_heap s' = mem_heap s" "mem_brk s' = mem_brk s" "mem_max_addr s' = mem_max_addr s"
    by blast
  have "used_blocks s' (pre' @ [(?N, False)] @ post') = used_blocks s (pre' @ (fs1 @ (n, False) # fs2) @ post')"
    by (rule used_cluster) (use p(2) q(2) f in auto)
  then have u: "used_blocks s' (pre' @ (?N, False) # post') = used_blocks s (pre @ (n, False) # post)"
    unfolding e by simp
  show ?thesis using c i f u bp' by (intro exI [of _ "mem_heap s + 16 + total_size pre'"] exI [of _ s']
      exI [of _ fl'] exI [of _ pre'] exI [of _ ?N] exI [of _ post']) simp
qed

section \<open>Release\<close>

lemma heap_invD:
  assumes "heap_inv s bs fl"
  shows "tags_ok s bs" "list_ok s fl" "set fl = free_slots s bs" "no_adj bs" "heap_wf s bs fl"
  using assms by (simp_all add: heap_inv_def heap_wf_def)

lemma used_not_free:
  assumes t: "tags_ok s bs" and u: "x \<in> used_slots s bs"
  shows "x \<notin> free_slots s bs"
proof
  assume "x \<in> free_slots s bs"
  then obtain k where k: "(x, k, False) \<in> set (chain s bs)" by (auto simp: free_slots_def)
  from u obtain n where n: "(x, n, True) \<in> set (chain s bs)" by (auto simp: used_slots_def)
  from layout_unique [OF k [unfolded chain_def] n [unfolded chain_def] tags_okD(2) [OF t]]
  show False by simp
qed

text \<open>Writing new tags over one block that is not in the free list.\<close>

lemma set_block:
  assumes w: "heap_wf s (pre @ (n, al) # post) fl"
    and bp: "bp = mem_heap s + 16 + total_size pre" and nin: "bp \<notin> set fl"
    and s': "s' = s\<lparr>mem := write_tags (mem s) bp n al'\<rparr>"
  shows "heap_wf s' (pre @ (n, al') # post) fl"
proof -
  note d = heap_wfD [OF w]
  have mb: "(bp, n, al) \<in> set (chain s (pre @ (n, al) # post))" unfolding bp by (rule chain_mid)
  note bb = chain_block [OF d(1) mb]
  have w0: "heap_wf s (pre @ [(n, al)] @ post) fl" using w by simp
  have "heap_wf s' (pre @ [(n, al')] @ post) fl"
  proof (rule wf_retag [OF w0, where a = bp])
    show "sizes_ok [(n, al')]" using bb(1,2) by simp
    show "total_size [(n, al')] = total_size [(n, al)]" by simp
    show "mem_heap s' = mem_heap s" "mem_brk s' = mem_brk s" "mem_max_addr s' = mem_max_addr s"
      "dl_start s' = dl_start s" "dl_end s' = dl_end s" by (simp_all add: s')
    show "bp = mem_heap s + 16 + total_size pre" by (rule bp)
    show "mem s' q = mem s q" if "q < bp - 4 \<or> bp + total_size [(n, al)] - 4 \<le> q" for q
      unfolding s' using that bb(1,4) by (simp, intro write_tags_other) auto
    show "load32 (mem s') (b - 4) = tag k a \<and> load32 (mem s') (b + k - 8) = tag k a"
      if "(b, k, a) \<in> set (layout bp [(n, al')])" for b k a
      using that bb(1,4) unfolding s' by (simp add: write_tags_read)
    show "(\<exists>k. (x, k, False) \<in> set (layout bp [(n, al')])) \<and>
          (\<forall>q. x \<le> q \<and> q < x + 16 \<longrightarrow> mem s' q = mem s q)"
      if "x \<in> set fl" "(x, k, False) \<in> set (layout bp [(n, al)])" for x k
      using that nin by auto
  qed
  then show ?thesis by simp
qed

lemma free_inv:
  assumes i: "heap_inv s bs fl" and u: "bp \<in> used_slots s bs"
  shows "\<exists>s' bs' fl'. mm_free bp s = Some s' \<and> heap_inv s' bs' fl' \<and>
           mem_heap s' = mem_heap s \<and> mem_brk s' = mem_brk s \<and> mem_max_addr s' = mem_max_addr s \<and>
           used_slots s' bs' = used_slots s bs - {bp} \<and>
           (\<exists>a N. (a, N, False) \<in> set (chain s' bs') \<and> a \<le> bp \<and>
              bp + unat (GET_SIZE s (HDRP bp)) \<le> a + N)"
proof -
  note d = heap_invD [OF i]
  from u obtain n where n: "(bp, n, True) \<in> set (chain s bs)" by (auto simp: used_slots_def)
  then obtain pre post where bs: "bs = pre @ (n, True) # post"
    and bp: "bp = mem_heap s + 16 + total_size pre"
    using layout_split [of bp n True "mem_heap s + 16" bs] by (auto simp: chain_def)
  note bb = chain_block [OF d(1) n]
  let ?bs' = "pre @ (n, False) # post"
  define sz where "sz = (ucast (GET_SIZE s (HDRP bp)) :: 64 word)"
  have "sz = word_of_nat n" unfolding sz_def by (rule chain_read(8) [OF d(1) n])
  then have usz: "unat sz = n" using bb(6) by (simp add: unat_of_nat)
  define s2 where "s2 = s\<lparr>mem := write_tags (mem s) bp n False\<rparr>"
  have p: "PUT (FTRP (PUT (HDRP bp) (PACK sz 0) s) bp) (PACK sz 0) (PUT (HDRP bp) (PACK sz 0) s) = s2"
    unfolding s2_def using PUT_block(1) [where w = sz and al = False and c = 0 and bp = bp and s = s] usz bb(2,6) by simp
  have b0: "bp \<noteq> 0" using bb(4) by simp
  have mf: "mm_free bp s = map_option snd (coalesce bp (add_freeblock bp s2))"
    using b0 p by (simp add: mm_free_def Let_def sz_def)
  have nin: "bp \<notin> set fl" using used_not_free [OF d(1) u] d(3) by simp
  have w2: "heap_wf s2 ?bs' fl"
    by (rule set_block [OF d(5) [unfolded bs] bp nin s2_def])
  have f2: "mem_heap s2 = mem_heap s" "mem_brk s2 = mem_brk s" "mem_max_addr s2 = mem_max_addr s"
    by (simp_all add: s2_def)
  have fs2: "free_slots s2 ?bs' = insert bp (free_slots s bs)"
    using free_slots_parts [of s2 pre "[(n, False)]" post] free_slots_parts [of s pre "[(n, True)]" post]
    unfolding bs f2 bp by auto
  have us2: "used_slots s2 ?bs' = used_slots s bs - {bp}"
  proof -
    have "used_slots s2 ?bs' \<union> {bp} = used_slots s bs"
      using used_slots_parts [of s2 pre "[(n, False)]" post] used_slots_parts [of s pre "[(n, True)]" post]
      unfolding bs f2 bp by auto
    moreover have "bp \<notin> used_slots s2 ?bs'"
      using used_not_free [OF heap_wfD(1) [OF w2], of bp] fs2 by auto
    ultimately show ?thesis by auto
  qed
  have bin: "bp \<in> free_slots s2 ?bs'" using fs2 by simp
  let ?s3 = "add_freeblock bp s2"
  have w3: "heap_wf ?s3 ?bs' (fl @ [bp])" by (rule wf_add(1) [OF w2 bin nin])
  have fs3: "free_slots ?s3 ?bs' = free_slots s2 ?bs'" by (simp add: free_slots_def chain_def)
  have full: "free_slots ?s3 ?bs' \<subseteq> set (fl @ [bp])" using fs3 fs2 d(3) by auto
  have na: "no_adj pre" "no_adj post" using d(4) unfolding bs by (simp_all add: no_adj_append no_adj_Cons)
  have bp3: "bp = mem_heap ?s3 + 16 + total_size pre" using bp f2 by simp
  from coalesce_at [OF w3 full na bp3]
  obtain r s' fl' pre' N post' where c: "coalesce bp ?s3 = Some (r, s')"
    and i': "heap_inv s' (pre' @ (N, False) # post') fl'"
    and f': "mem_heap s' = mem_heap ?s3" "mem_brk s' = mem_brk ?s3" "mem_max_addr s' = mem_max_addr ?s3"
    and ub: "used_blocks s' (pre' @ (N, False) # post') = used_blocks ?s3 ?bs'"
    and r: "r = mem_heap ?s3 + 16 + total_size pre'" "r \<le> bp" "bp + n \<le> r + N"
    by blast
  have "(r, N, False) \<in> set (chain s' (pre' @ (N, False) # post'))"
    unfolding r(1) f'(1) [symmetric] by (rule chain_mid)
  moreover have "unat (GET_SIZE s (HDRP bp)) = n" by (rule chain_read(3) [OF d(1) n])
  ultimately have cov: "\<exists>a N'. (a, N', False) \<in> set (chain s' (pre' @ (N, False) # post')) \<and> a \<le> bp \<and>
      bp + unat (GET_SIZE s (HDRP bp)) \<le> a + N'" using r(2,3) by auto
  have u': "used_slots s' (pre' @ (N, False) # post') = used_slots ?s3 ?bs'"
    unfolding used_slots_blocks ub ..
  have "used_slots ?s3 ?bs' = used_slots s2 ?bs'" by (simp add: used_slots_def chain_def)
  then have "used_slots s' (pre' @ (N, False) # post') = used_slots s bs - {bp}" using u' us2 by simp
  moreover have "mm_free bp s = Some s'" using mf c by simp
  ultimately show ?thesis using i' f' f2 cov by (intro exI [of _ s'] exI [of _ "pre' @ (N, False) # post'"] exI [of _ fl']) simp
qed

section \<open>Placement\<close>

lemma NEXT_BLKP_write_tags:
  assumes "8 dvd n" "n < 2 ^ 32" "8 \<le> n" "4 \<le> bp"
  shows "NEXT_BLKP (s\<lparr>mem := write_tags (mem s) bp n al\<rparr>) bp = bp + n"
    "unat (GET_SIZE (s\<lparr>mem := write_tags (mem s) bp n al\<rparr>) (HDRP bp)) = n"
    "GET_ALLOC (s\<lparr>mem := write_tags (mem s) bp n al\<rparr>) (HDRP bp) = (if al then 1 else 0)"
proof -
  let ?s = "s\<lparr>mem := write_tags (mem s) bp n al\<rparr>"
  have g: "GET ?s (bp - 4) = tag n al"
    using write_tags_read(1) [OF assms(3,4)] by (simp add: GET_def)
  have u: "unat (GET_SIZE ?s (bp - 4)) = n"
    unfolding GET_SIZE_def g using assms(1,2) by (rule tag_size)
  then show "NEXT_BLKP ?s bp = bp + n" by (simp add: NEXT_BLKP_def WSIZE_def)
  show "unat (GET_SIZE ?s (HDRP bp)) = n" using u by (simp add: HDRP_def WSIZE_def)
  have "GET_ALLOC ?s (bp - 4) = (if al then 1 else 0)"
    unfolding GET_ALLOC_def g using assms(1) by (rule tag_alloc)
  then show "GET_ALLOC ?s (HDRP bp) = (if al then 1 else 0)" by (simp add: HDRP_def WSIZE_def)
qed

text \<open>Cutting a block that is not in the free list into an allocated and a free part.\<close>

lemma split_block:
  assumes w: "heap_wf s (pre @ (c, al) # post) fl"
    and bp: "bp = mem_heap s + 16 + total_size pre" and nin: "bp \<notin> set fl"
    and k: "24 \<le> k" "8 dvd k" "k + 24 \<le> c"
    and s': "s' = s\<lparr>mem := write_tags (write_tags (mem s) bp k True) (bp + k) (c - k) False\<rparr>"
  shows "heap_wf s' (pre @ (k, True) # (c - k, False) # post) fl"
proof -
  note d = heap_wfD [OF w]
  have mb: "(bp, c, al) \<in> set (chain s (pre @ (c, al) # post))" unfolding bp by (rule chain_mid)
  note bb = chain_block [OF d(1) mb]
  have w0: "heap_wf s (pre @ [(c, al)] @ post) fl" using w by simp
  have "heap_wf s' (pre @ [(k, True), (c - k, False)] @ post) fl"
  proof (rule wf_retag [OF w0, where a = bp])
    show "sizes_ok [(k, True), (c - k, False)]" using bb(1,2) k by simp
    show "total_size [(k, True), (c - k, False)] = total_size [(c, al)]" using k by simp
    show "mem_heap s' = mem_heap s" "mem_brk s' = mem_brk s" "mem_max_addr s' = mem_max_addr s"
      "dl_start s' = dl_start s" "dl_end s' = dl_end s" by (simp_all add: s')
    show "bp = mem_heap s + 16 + total_size pre" by (rule bp)
    show "mem s' q = mem s q" if q: "q < bp - 4 \<or> bp + total_size [(c, al)] - 4 \<le> q" for q
    proof -
      have "write_tags (write_tags (mem s) bp k True) (bp + k) (c - k) False q =
            write_tags (mem s) bp k True q"
        by (rule write_tags_other) (use q k bb(4) in auto)
      also have "\<dots> = mem s q"
        by (rule write_tags_other) (use q k bb(4) in auto)
      finally show ?thesis by (simp add: s')
    qed
    show "load32 (mem s') (b - 4) = tag j a \<and> load32 (mem s') (b + j - 8) = tag j a"
      if "(b, j, a) \<in> set (layout bp [(k, True), (c - k, False)])" for b j a
    proof -
      from that consider "b = bp" "j = k" "a = True" | "b = bp + k" "j = c - k" "a = False" by auto
      then show ?thesis
      proof cases
        case 1
        have "load32 (mem s') (bp - 4) = load32 (write_tags (mem s) bp k True) (bp - 4)"
          unfolding s' by (simp, rule write_tags_load32_other) (use k bb(4) in auto)
        moreover have "load32 (mem s') (bp + k - 8) = load32 (write_tags (mem s) bp k True) (bp + k - 8)"
          unfolding s' by (simp, rule write_tags_load32_other) (use k bb(4) in auto)
        ultimately show ?thesis using 1 k bb(4) by (simp add: write_tags_read)
      next
        case 2
        have "8 \<le> c - k" "4 \<le> bp + k" using k by simp_all
        from write_tags_read [OF this, of "write_tags (mem s) bp k True" False]
        show ?thesis unfolding s' 2 by simp
      qed
    qed
    show "(\<exists>k'. (x, k', False) \<in> set (layout bp [(k, True), (c - k, False)])) \<and>
          (\<forall>q. x \<le> q \<and> q < x + 16 \<longrightarrow> mem s' q = mem s q)"
      if "x \<in> set fl" "(x, j, False) \<in> set (layout bp [(c, al)])" for x j
      using that nin by auto
  qed
  then show ?thesis by simp
qed

lemma place_inv:
  assumes i: "heap_inv s bs fl" and m: "(bp, c, False) \<in> set (chain s bs)"
    and k: "24 \<le> unat asize" "8 dvd unat asize" "unat asize \<le> c"
  shows "\<exists>s' bs' fl' N. place bp asize s = Some s' \<and> heap_inv s' bs' fl' \<and>
           mem_heap s' = mem_heap s \<and> mem_brk s' = mem_brk s \<and> mem_max_addr s' = mem_max_addr s \<and>
           used_blocks s' bs' = insert (bp, N) (used_blocks s bs) \<and> unat asize \<le> N"
proof -
  note d = heap_invD [OF i]
  obtain pre post where bs: "bs = pre @ (c, False) # post"
    and bp: "bp = mem_heap s + 16 + total_size pre"
    using layout_split [of bp c False "mem_heap s + 16" bs] m by (auto simp: chain_def)
  note bb = chain_block [OF d(1) m]
  define k where "k = unat asize"
  let ?cs = "ucast (GET_SIZE s (HDRP bp)) :: 64 word"
  have cs: "?cs = word_of_nat c" by (rule chain_read(8) [OF d(1) m])
  have ucs: "unat ?cs = c" unfolding cs using bb(6) by (simp add: unat_of_nat)
  have le: "asize \<le> ?cs" using k(3) ucs by (simp add: word_le_nat_alt)
  have ud: "unat (?cs - asize) = c - k" using unat_sub [OF le] ucs by (simp add: k_def)
  have k': "24 \<le> k" "8 dvd k" "k \<le> c" "k < 2 ^ 32" using k bb(6) by (simp_all add: k_def)
  have bin: "bp \<in> set fl" using d(3) m by (auto simp: free_slots_def)
  define s1 where "s1 = remove_freeblock bp s"
  have w1: "heap_wf s1 bs (remove1 bp fl)" unfolding s1_def by (rule wf_remove(1) [OF d(5) bin])
  have f1: "mem_heap s1 = mem_heap s" "mem_brk s1 = mem_brk s" "mem_max_addr s1 = mem_max_addr s"
    by (simp_all add: s1_def)
  have bp1: "bp = mem_heap s1 + 16 + total_size pre" using bp f1 by simp
  have dist: "distinct fl" using list_okD(1) [OF d(2)] .
  have nin1: "bp \<notin> set (remove1 bp fl)" using dist by simp
  have fl1: "set (remove1 bp fl) = free_slots s bs - {bp}" using dist d(3) by auto
  have na: "no_adj pre" "no_adj post" using d(4) unfolding bs by (simp_all add: no_adj_append no_adj_Cons)
  have ub: "used_blocks s bs =
      {(x, j). (x, j, True) \<in> set (layout (mem_heap s + 16) pre)} \<union>
      {(x, j). (x, j, True) \<in> set (layout (bp + c) post)}"
    using used_blocks_parts [of s pre "[(c, False)]" post] unfolding bs bp by simp
  have fb: "free_slots s bs =
      {x. \<exists>j. (x, j, False) \<in> set (layout (mem_heap s + 16) pre)} \<union> {bp} \<union>
      {x. \<exists>j. (x, j, False) \<in> set (layout (bp + c) post)}"
    using free_slots_parts [of s pre "[(c, False)]" post] unfolding bs bp by auto
  show ?thesis
  proof (cases "24 \<le> c - k")
    case True
    then have cnd: "MINCHUNKSIZE \<le> ?cs - asize"
      using ud by (simp add: word_le_nat_alt MINCHUNKSIZE_def)
    have kc: "k + 24 \<le> c" using True k'(3) by simp
    define s3 where "s3 = s1\<lparr>mem := write_tags (mem s1) bp k True\<rparr>"
    have p3: "PUT (FTRP (PUT (HDRP bp) (PACK asize 1) s1) bp) (PACK asize 1) (PUT (HDRP bp) (PACK asize 1) s1) = s3"
      unfolding s3_def k_def
      using PUT_block(1) [where w = asize and al = True and c = 1 and bp = bp and s = s1] k'(2,4)
      by (simp add: k_def)
    have nx: "NEXT_BLKP s3 bp = bp + k"
      unfolding s3_def by (rule NEXT_BLKP_write_tags) (use k' bb(4) in auto)
    define s5 where "s5 = s3\<lparr>mem := write_tags (mem s3) (bp + k) (c - k) False\<rparr>"
    have dv: "8 dvd c - k" using bb(2) k'(2,3) by simp
    have lt: "c - k < 2 ^ 32" using bb(6) by simp
    have p5: "PUT (FTRP (PUT (HDRP (bp + k)) (PACK (?cs - asize) 0) s3) (bp + k)) (PACK (?cs - asize) 0)
                (PUT (HDRP (bp + k)) (PACK (?cs - asize) 0) s3) = s5"
      unfolding s5_def
      using PUT_block(1) [where w = "?cs - asize" and al = False and c = 0 and bp = "bp + k" and s = s3]
        dv lt ud by simp
    have pl: "place bp asize s = map_option snd (coalesce (bp + k) (add_freeblock (bp + k) s5))"
      by (simp add: place_def Let_def cnd s1_def [symmetric] p3 nx p5)
    let ?bs5 = "pre @ (k, True) # (c - k, False) # post"
    have s5': "s5 = s1\<lparr>mem := write_tags (write_tags (mem s1) bp k True) (bp + k) (c - k) False\<rparr>"
      by (simp add: s5_def s3_def)
    have w5: "heap_wf s5 ?bs5 (remove1 bp fl)"
      by (rule split_block [OF w1 [unfolded bs] bp1 nin1 k'(1,2) kc s5'])
    have f5: "mem_heap s5 = mem_heap s" "mem_brk s5 = mem_brk s" "mem_max_addr s5 = mem_max_addr s"
      by (simp_all add: s5' f1)
    have fs5: "free_slots s5 ?bs5 = insert (bp + k) (free_slots s bs - {bp})"
    proof -
      have "free_slots s5 ?bs5 =
          {x. \<exists>j. (x, j, False) \<in> set (layout (mem_heap s + 16) pre)} \<union> {bp + k} \<union>
          {x. \<exists>j. (x, j, False) \<in> set (layout (bp + c) post)}"
        using free_slots_parts [of s5 pre "[(k, True), (c - k, False)]" post] kc
        unfolding f5 bp by auto
      moreover have "bp \<notin> {x. \<exists>j. (x, j, False) \<in> set (layout (mem_heap s + 16) pre)}"
        using layout_bounds [of bp _ False "mem_heap s + 16" pre] layout_sizes [of bp _ False "mem_heap s + 16" pre]
          tags_okD(2) [OF d(1)] unfolding bs bp by fastforce
      moreover have "bp \<notin> {x. \<exists>j. (x, j, False) \<in> set (layout (bp + c) post)}"
        using layout_bounds [of bp _ False "bp + c" post] bb(1) by fastforce
      ultimately show ?thesis unfolding fb by auto
    qed
    have us5: "used_blocks s5 ?bs5 = insert (bp, k) (used_blocks s bs)"
      using used_blocks_parts [of s5 pre "[(k, True), (c - k, False)]" post] kc
      unfolding ub f5 bp by auto
    have xin: "bp + k \<in> free_slots s5 ?bs5" using fs5 by simp
    have xnin: "bp + k \<notin> set (remove1 bp fl)"
    proof
      assume "bp + k \<in> set (remove1 bp fl)"
      then have "bp + k \<in> free_slots s bs" using fl1 by simp
      then obtain j where j: "(bp + k, j, False) \<in> set (chain s bs)" by (auto simp: free_slots_def)
      from chain_apart [OF j m tags_okD(2) [OF d(1)]] k'(1) kc chain_block(1) [OF d(1) j]
      show False by auto
    qed
    let ?s6 = "add_freeblock (bp + k) s5"
    have w6: "heap_wf ?s6 (pre @ (k, True) # (c - k, False) # post) (remove1 bp fl @ [bp + k])"
      by (rule wf_add(1) [OF w5 xin xnin])
    have w6': "heap_wf ?s6 ((pre @ [(k, True)]) @ (c - k, False) # post) (remove1 bp fl @ [bp + k])"
      using w6 by simp
    have "free_slots ?s6 ?bs5 = free_slots s5 ?bs5" by (simp add: free_slots_def chain_def)
    then have full: "free_slots ?s6 ((pre @ [(k, True)]) @ (c - k, False) # post) \<subseteq> set (remove1 bp fl @ [bp + k])"
      using fs5 fl1 by auto
    have na6: "no_adj (pre @ [(k, True)])" using na(1) by (simp add: no_adj_append)
    have bp6: "bp + k = mem_heap ?s6 + 16 + total_size (pre @ [(k, True)])" using bp f5 by simp
    from coalesce_at [OF w6' full na6 na(2) bp6]
    obtain r s' fl' pre' N post' where c: "coalesce (bp + k) ?s6 = Some (r, s')"
      and i': "heap_inv s' (pre' @ (N, False) # post') fl'"
      and f': "mem_heap s' = mem_heap ?s6" "mem_brk s' = mem_brk ?s6" "mem_max_addr s' = mem_max_addr ?s6"
      and u': "used_blocks s' (pre' @ (N, False) # post') = used_blocks ?s6 ((pre @ [(k, True)]) @ (c - k, False) # post)"
      by blast
    have "used_blocks ?s6 ?bs5 = used_blocks s5 ?bs5" by (simp add: used_blocks_def chain_def)
    then have "used_blocks s' (pre' @ (N, False) # post') = insert (bp, k) (used_blocks s bs)"
      using u' us5 by simp
    moreover have "place bp asize s = Some s'" using pl c by simp
    ultimately show ?thesis using i' f' f5
      by (intro exI [of _ s'] exI [of _ "pre' @ (N, False) # post'"] exI [of _ fl'] exI [of _ k])
        (simp add: k_def)
  next
    case False
    then have cnd: "\<not> MINCHUNKSIZE \<le> ?cs - asize"
      using ud by (simp add: word_le_nat_alt MINCHUNKSIZE_def)
    define s3 where "s3 = s1\<lparr>mem := write_tags (mem s1) bp c True\<rparr>"
    have p3: "PUT (FTRP (PUT (HDRP bp) (PACK ?cs 1) s1) bp) (PACK ?cs 1) (PUT (HDRP bp) (PACK ?cs 1) s1) = s3"
      unfolding s3_def
      using PUT_block(1) [where w = ?cs and al = True and c = 1 and bp = bp and s = s1] ucs bb(2,6)
      by simp
    have pl: "place bp asize s = Some s3"
      by (simp add: place_def Let_def cnd s1_def [symmetric] p3)
    let ?bs3 = "pre @ (c, True) # post"
    have w3: "heap_wf s3 ?bs3 (remove1 bp fl)"
      by (rule set_block [OF w1 [unfolded bs] bp1 nin1 s3_def])
    have f3: "mem_heap s3 = mem_heap s" "mem_brk s3 = mem_brk s" "mem_max_addr s3 = mem_max_addr s"
      by (simp_all add: s3_def f1)
    have fs3: "free_slots s3 ?bs3 = free_slots s bs - {bp}"
    proof -
      have "free_slots s3 ?bs3 =
          {x. \<exists>j. (x, j, False) \<in> set (layout (mem_heap s + 16) pre)} \<union>
          {x. \<exists>j. (x, j, False) \<in> set (layout (bp + c) post)}"
        using free_slots_parts [of s3 pre "[(c, True)]" post]
        unfolding f3 bp by auto
      moreover have "bp \<notin> {x. \<exists>j. (x, j, False) \<in> set (layout (mem_heap s + 16) pre)}"
        using layout_bounds [of bp _ False "mem_heap s + 16" pre] layout_sizes [of bp _ False "mem_heap s + 16" pre]
          tags_okD(2) [OF d(1)] unfolding bs bp by fastforce
      moreover have "bp \<notin> {x. \<exists>j. (x, j, False) \<in> set (layout (bp + c) post)}"
        using layout_bounds [of bp _ False "bp + c" post] bb(1) by fastforce
      ultimately show ?thesis unfolding fb by auto
    qed
    have us3: "used_blocks s3 ?bs3 = insert (bp, c) (used_blocks s bs)"
      using used_blocks_parts [of s3 pre "[(c, True)]" post]
      unfolding ub f3 bp by auto
    have "no_adj ?bs3" using na by (simp add: no_adj_append no_adj_Cons)
    then have "heap_inv s3 ?bs3 (remove1 bp fl)"
      using w3 fs3 fl1 by (simp add: heap_inv_def heap_wf_def)
    then show ?thesis using pl f3 us3 k(3)
      by (intro exI [of _ s3] exI [of _ ?bs3] exI [of _ "remove1 bp fl"] exI [of _ c]) simp
  qed
qed

section \<open>The fit search on a heap\<close>

lemma find_fit_from_list:
  assumes l: "list_ok s fl" and fl: "fl = xs @ ys"
  shows "\<exists>r. find_fit_from asize (if ys = [] then 0 else hd ys) s = Some r \<and>
           (r = 0 \<or> (r \<in> set ys \<and> asize \<le> ucast (GET_SIZE s (HDRP r))))"
  using fl
proof (induction ys arbitrary: xs)
  case Nil
  show ?case by (subst find_fit_from.simps) simp
next
  case (Cons y ys)
  note d = list_okD [OF l]
  have yin: "y \<in> set fl" using Cons.prems by simp
  have y0: "y \<noteq> 0" using d(6) yin by metis
  have "next_in fl y = (if ys = [] then 0 else hd ys)"
    using next_in_split [of xs y ys] d(1) Cons.prems by simp
  then have gn: "get_next s y = (if ys = [] then 0 else hd ys)"
    using list_ok_read(1) [OF l yin] by simp
  have "fl = (xs @ [y]) @ ys" using Cons.prems by simp
  from Cons.IH [OF this] obtain r where
    r: "find_fit_from asize (get_next s y) s = Some r"
      "r = 0 \<or> (r \<in> set ys \<and> asize \<le> ucast (GET_SIZE s (HDRP r)))"
    unfolding gn by blast
  show ?case
  proof (cases "asize \<le> ucast (GET_SIZE s (HDRP y))")
    case True
    then have "find_fit_from asize y s = Some y" using y0 by (subst find_fit_from.simps) simp
    then show ?thesis using True by simp
  next
    case False
    then have "find_fit_from asize y s = Some r"
      using y0 r(1) by (subst find_fit_from.simps) simp
    then show ?thesis using r(2) by auto
  qed
qed

lemma find_fit_inv:
  assumes i: "heap_inv s bs fl"
  shows "\<exists>r. find_fit asize s = Some r \<and>
           (r = 0 \<or> (\<exists>c. (r, c, False) \<in> set (chain s bs) \<and> unat asize \<le> c))"
proof -
  note d = heap_invD [OF i]
  have "dl_start s = (if fl = [] then 0 else hd fl)" using list_okD(2) [OF d(2)] .
  with find_fit_from_list [OF d(2), of "[]" fl asize]
  obtain r where r: "find_fit asize s = Some r"
    "r = 0 \<or> (r \<in> set fl \<and> asize \<le> ucast (GET_SIZE s (HDRP r)))"
    unfolding find_fit_def by auto
  show ?thesis
  proof (cases "r = 0")
    case True
    then show ?thesis using r(1) by simp
  next
    case False
    then have rin: "r \<in> set fl" and le: "asize \<le> ucast (GET_SIZE s (HDRP r))" using r(2) by simp_all
    then obtain c where c: "(r, c, False) \<in> set (chain s bs)" using d(3) by (auto simp: free_slots_def)
    have "(ucast (GET_SIZE s (HDRP r)) :: 64 word) = word_of_nat c" by (rule chain_read(8) [OF d(1) c])
    moreover have "unat (word_of_nat c :: 64 word) = c"
      using chain_block(6) [OF d(1) c] by (simp add: unat_of_nat)
    ultimately have "unat asize \<le> c" using le by (simp add: word_le_nat_alt)
    then show ?thesis using r(1) c by blast
  qed
qed

section \<open>Growth of the heap\<close>

text \<open>The new block that \<^verbatim>\<open>extend_heap\<close> writes over the old epilogue.\<close>

lemma extend_tags:
  assumes w: "heap_wf s bs fl" and B: "24 \<le> B" "8 dvd B" and room: "mem_brk s + B \<le> mem_max_addr s"
    and s': "s' = s\<lparr>mem_brk := mem_brk s + B,
                    mem := store32 (write_tags (mem s) (mem_brk s) B False) (mem_brk s + B - 4) 1\<rparr>"
  shows "heap_wf s' (bs @ [(B, False)]) fl"
proof -
  note d = heap_wfD [OF w]
  note t = tags_okD [OF d(1)]
  let ?brk = "mem_brk s"
  have brk16: "mem_heap s + 16 \<le> ?brk" using t(3) by simp
  have out: "mem s' q = mem s q" if "q < ?brk - 4" for q
  proof -
    have "store32 (write_tags (mem s) ?brk B False) (?brk + B - 4) 1 q = write_tags (mem s) ?brk B False q"
      by (rule store32_apply_other) (use that in auto)
    also have "\<dots> = mem s q"
      by (rule write_tags_other) (use that B brk16 in auto)
    finally show ?thesis by (simp add: s')
  qed
  have ar: "arena_ok s'" using t(1) room by (simp add: arena_ok_def s')
  have p1: "load32 (mem s') (mem_heap s + 4) = load32 (mem s) (mem_heap s + 4)"
    by (rule load32_cong) (use brk16 in \<open>auto intro!: out\<close>)
  have p2: "load32 (mem s') (mem_heap s + 8) = load32 (mem s) (mem_heap s + 8)"
    by (rule load32_cong) (use brk16 in \<open>auto intro!: out\<close>)
  have p3: "load32 (mem s') (mem_brk s' - 4) = 1"
    by (simp add: s' load32_store32_same)
  have c': "chain s' (bs @ [(B, False)]) = chain s bs @ [(?brk, B, False)]"
    using t(3) by (simp add: chain_def layout_append s')
  have new: "load32 (mem s') (?brk - 4) = tag B False \<and> load32 (mem s') (?brk + B - 8) = tag B False"
  proof -
    have "load32 (mem s') (?brk - 4) = load32 (write_tags (mem s) ?brk B False) (?brk - 4)"
      unfolding s' by (simp, rule load32_store32_other) (use B brk16 in auto)
    moreover have "load32 (mem s') (?brk + B - 8) = load32 (write_tags (mem s) ?brk B False) (?brk + B - 8)"
      unfolding s' by (simp, rule load32_store32_other) (use B brk16 in auto)
    ultimately show ?thesis using B brk16 by (simp add: write_tags_read)
  qed
  have blk: "load32 (mem s') (b - 4) = tag m al \<and> load32 (mem s') (b + m - 8) = tag m al"
    if b: "(b, m, al) \<in> set (chain s' (bs @ [(B, False)]))" for b m al
  proof (cases "(b, m, al) \<in> set (chain s bs)")
    case True
    note bb = chain_block [OF d(1) True]
    have "load32 (mem s') (b - 4) = load32 (mem s) (b - 4)"
      by (rule load32_cong) (use bb in \<open>auto intro!: out\<close>)
    moreover have "load32 (mem s') (b + m - 8) = load32 (mem s) (b + m - 8)"
      by (rule load32_cong) (use bb in \<open>auto intro!: out\<close>)
    ultimately show ?thesis using t(7) [OF True] by simp
  next
    case False
    then have "(b, m, al) = (?brk, B, False)" using b c' by simp
    then show ?thesis using new by simp
  qed
  have t': "tags_ok s' (bs @ [(B, False)])"
    unfolding tags_ok_def using ar t(2,3,4,5) B p1 p2 p3 blk by (simp add: s')
  have each: "mem s' q = mem s q" if x: "x \<in> set fl" and q: "x \<le> q" "q < x + 16" for x q
  proof -
    from x d(3) obtain n where n: "(x, n, False) \<in> set (chain s bs)" by (auto simp: free_slots_def)
    note bb = chain_block [OF d(1) n]
    show ?thesis by (rule out) (use q bb in auto)
  qed
  have l': "list_ok s' fl"
    by (rule list_frame [OF d(2)]) (use each in \<open>auto simp: s'\<close>)
  have "set fl \<subseteq> free_slots s' (bs @ [(B, False)])"
    using d(3) unfolding free_slots_def c' by auto
  then show ?thesis using t' l' by (simp add: heap_wf_def)
qed

lemma extend_inv:
  fixes words :: "64 word"
  assumes i: "heap_inv s bs fl"
  defines "sz \<equiv> (if words mod 2 \<noteq> 0 then (words + 1) * 4 else words * 4)"
  assumes B: "24 \<le> unat sz" "8 dvd unat sz" "unat sz < 2 ^ 32"
  shows "\<exists>r s' bs' fl'. extend_heap words s = Some (r, s') \<and> heap_inv s' bs' fl' \<and>
           mem_heap s' = mem_heap s \<and> mem_max_addr s' = mem_max_addr s \<and>
           used_blocks s' bs' = used_blocks s bs \<and>
           (r = 0 \<or> (\<exists>N. (r, N, False) \<in> set (chain s' bs') \<and> unat sz \<le> N))"
proof (cases "mem_brk s + unat sz > mem_max_addr s")
  case True
  then have "extend_heap words s = Some (0, s)"
    unfolding extend_heap_def sz_def [symmetric] by (simp add: Let_def mem_sbrk_def)
  then show ?thesis using i by blast
next
  case False
  note d = heap_invD [OF i]
  note t = tags_okD [OF d(1)]
  define B where "B = unat sz"
  define bp where "bp = mem_brk s"
  define s0 where "s0 = s\<lparr>mem_brk := mem_brk s + B\<rparr>"
  have sb: "mem_sbrk (unat sz) s = Some (bp, s0)"
    using False by (simp add: mem_sbrk_def s0_def B_def bp_def)
  define s2 where "s2 = s0\<lparr>mem := write_tags (mem s0) bp B False\<rparr>"
  have p2: "PUT (FTRP (PUT (HDRP bp) (PACK sz 0) s0) bp) (PACK sz 0) (PUT (HDRP bp) (PACK sz 0) s0) = s2"
    unfolding s2_def B_def
    using PUT_block(1) [where w = sz and al = False and c = 0 and bp = bp and s = s0] B by simp
  have bp4: "4 \<le> bp" using t(3) by (simp add: bp_def)
  have nx: "NEXT_BLKP s2 bp = bp + B"
    unfolding s2_def by (rule NEXT_BLKP_write_tags) (use B bp4 in \<open>auto simp: B_def\<close>)
  define s3 where "s3 = s\<lparr>mem_brk := mem_brk s + B,
      mem := store32 (write_tags (mem s) (mem_brk s) B False) (mem_brk s + B - 4) 1\<rparr>"
  have one: "(ucast (PACK 0 1) :: 32 word) = 1" by (simp add: PACK_def)
  have p3: "PUT (HDRP (bp + B)) (PACK 0 1) s2 = s3"
    by (simp add: PUT_def one s2_def s0_def s3_def HDRP_def WSIZE_def bp_def)
  have ex: "extend_heap words s = coalesce bp (add_freeblock bp s3)"
    unfolding extend_heap_def sz_def [symmetric] by (simp add: Let_def sb p2 nx p3)
  have room: "mem_brk s + B \<le> mem_max_addr s" using False by (simp add: B_def)
  have w3: "heap_wf s3 (bs @ [(B, False)]) fl"
    by (rule extend_tags [OF d(5) _ _ room s3_def]) (use B in \<open>auto simp: B_def\<close>)
  have f3: "mem_heap s3 = mem_heap s" "mem_max_addr s3 = mem_max_addr s" by (simp_all add: s3_def)
  have c3: "chain s3 (bs @ [(B, False)]) = chain s bs @ [(bp, B, False)]"
    using t(3) by (simp add: chain_def layout_append f3 bp_def)
  have bin: "bp \<in> free_slots s3 (bs @ [(B, False)])" unfolding free_slots_def c3 by auto
  have bnin: "bp \<notin> set fl"
  proof
    assume "bp \<in> set fl"
    then obtain n where n: "(bp, n, False) \<in> set (chain s bs)" using d(3) by (auto simp: free_slots_def)
    from chain_block(1,5) [OF d(1) n] show False by (simp add: bp_def)
  qed
  let ?s4 = "add_freeblock bp s3"
  have w4: "heap_wf ?s4 (bs @ (B, False) # []) (fl @ [bp])"
    using wf_add(1) [OF w3 bin bnin] by simp
  have "free_slots ?s4 (bs @ [(B, False)]) = free_slots s3 (bs @ [(B, False)])"
    by (simp add: free_slots_def chain_def)
  moreover have "free_slots s3 (bs @ [(B, False)]) = insert bp (free_slots s bs)"
    unfolding free_slots_def c3 by auto
  ultimately have full: "free_slots ?s4 (bs @ (B, False) # []) \<subseteq> set (fl @ [bp])"
    using d(3) by auto
  have bp4': "bp = mem_heap ?s4 + 16 + total_size bs" using t(3) f3 by (simp add: bp_def)
  have na: "no_adj []" by simp
  from coalesce_at [OF w4 full d(4) na bp4']
  obtain r s' fl' pre' N post' where c: "coalesce bp ?s4 = Some (r, s')"
    and i': "heap_inv s' (pre' @ (N, False) # post') fl'"
    and f': "mem_heap s' = mem_heap ?s4" "mem_brk s' = mem_brk ?s4" "mem_max_addr s' = mem_max_addr ?s4"
    and u': "used_blocks s' (pre' @ (N, False) # post') = used_blocks ?s4 (bs @ (B, False) # [])"
    and r: "r = mem_heap ?s4 + 16 + total_size pre'" and N: "B \<le> N"
    by blast
  have "used_blocks ?s4 (bs @ [(B, False)]) = used_blocks s3 (bs @ [(B, False)])"
    by (simp add: used_blocks_def chain_def)
  moreover have "used_blocks s3 (bs @ [(B, False)]) = used_blocks s bs"
    unfolding used_blocks_def c3 by auto
  ultimately have u: "used_blocks s' (pre' @ (N, False) # post') = used_blocks s bs" using u' by simp
  have "(r, N, False) \<in> set (chain s' (pre' @ (N, False) # post'))"
    unfolding r f'(1) [symmetric] by (rule chain_mid)
  then show ?thesis using ex c i' f' f3 u N
    by (intro exI [of _ r] exI [of _ s'] exI [of _ "pre' @ (N, False) # post'"] exI [of _ fl'])
      (auto simp: B_def)
qed

section \<open>Adjusted sizes\<close>

lemma and_not7_unat: "unat ((x :: 64 word) AND NOT 7) = unat x div 8 * 8"
proof -
  have "x AND NOT 7 = push_bit 3 (drop_bit 3 x)"
    unfolding not7 by (rule bit_word_eqI) (auto simp add: bit_simps)
  moreover have "unat (push_bit 3 (drop_bit 3 x)) = unat x div 8 * 8"
  proof -
    have d: "unat (x div 8) = unat x div 8" by (simp add: unat_div)
    have "unat x < 2 ^ 64" using unsigned_less [of x, where 'a = nat] by simp
    moreover have "unat x div 8 * 8 \<le> unat x" by (rule div_times_less_eq_dividend)
    ultimately have "unat x div 8 * 8 < 2 ^ 64" by (rule le_less_trans [rotated])
    then have "unat (x div 8) * unat (8 :: 64 word) < 2 ^ LENGTH(64)" using d by simp
    then have "unat (x div 8 * 8) = unat (x div 8) * unat (8 :: 64 word)"
      by (simp only: unat_mult_lem)
    then show ?thesis using d by (simp add: push_bit_eq_mult drop_bit_eq_div)
  qed
  ultimately show ?thesis by simp
qed

lemma ALIGN_unat:
  assumes "unat w + 7 < 2 ^ 64"
  shows "unat (ALIGN w) = (unat w + 7) div 8 * 8"
proof -
  have "unat (w + 7) = unat w + 7" using assms by (simp add: unat_add_lem [THEN iffD1])
  then show ?thesis unfolding ALIGN_def and_not7_unat by simp
qed

lemma malloc_asize_unat:
  assumes "unat sz \<le> 2 ^ 32 - 16"
  shows "unat (malloc_asize sz) = (max (unat sz) 16 + 7) div 8 * 8 + 8"
proof -
  let ?w = "if sz < 16 then 16 else sz"
  have w: "unat ?w = max (unat sz) 16" by (auto simp: word_less_nat_alt)
  have "unat ?w + 7 < 2 ^ 64" unfolding w using assms by simp
  from ALIGN_unat [OF this] have a: "unat (ALIGN ?w) = (max (unat sz) 16 + 7) div 8 * 8" unfolding w .
  have "(max (unat sz) 16 + 7) div 8 * 8 \<le> max (unat sz) 16 + 7" by (rule div_times_less_eq_dividend)
  then have b: "(max (unat sz) 16 + 7) div 8 * 8 + 8 < 2 ^ 64" using assms by simp
  have "malloc_asize sz = ALIGN ?w + 8" by (simp add: malloc_asize_def Let_def)
  moreover have "unat (ALIGN ?w + 8) = unat (ALIGN ?w) + 8"
    using b a by (simp add: unat_add_lem [THEN iffD1])
  ultimately show ?thesis using a by simp
qed

lemma malloc_asize_facts:
  assumes "unat sz \<le> 2 ^ 32 - 16"
  shows "24 \<le> unat (malloc_asize sz)" "8 dvd unat (malloc_asize sz)"
    "unat sz + 8 \<le> unat (malloc_asize sz)" "unat (malloc_asize sz) < 2 ^ 32"
proof -
  let ?m = "max (unat sz) 16"
  note u = malloc_asize_unat [OF assms]
  have lo: "?m \<le> (?m + 7) div 8 * 8" by arith
  have hi: "(?m + 7) div 8 * 8 \<le> ?m + 7" by (rule div_times_less_eq_dividend)
  show "24 \<le> unat (malloc_asize sz)" unfolding u using lo by simp
  show "8 dvd unat (malloc_asize sz)" unfolding u by simp
  show "unat sz + 8 \<le> unat (malloc_asize sz)" unfolding u using lo by simp
  show "unat (malloc_asize sz) < 2 ^ 32" unfolding u using hi assms by simp
qed

lemma extend_words:
  fixes asize :: "64 word"
  assumes a: "8 dvd unat asize" "unat asize < 2 ^ 32"
  defines "words \<equiv> (ucast ((ucast (if asize > 512 then asize else 512) :: 32 word) div 4) :: 64 word)"
  shows "unat (if words mod 2 \<noteq> 0 then (words + 1) * 4 else words * 4) = max (unat asize) 512"
proof -
  let ?e = "if asize > 512 then asize else (512 :: 64 word)"
  let ?E = "max (unat asize) 512"
  have e: "unat ?e = ?E" by (auto simp: word_less_nat_alt)
  have E: "?E < 2 ^ 32" "8 dvd ?E" using a by (auto simp: max_def)
  have "take_bit 32 ?E = ?E" using E(1) by (simp only: take_bit_nat_eq_self_iff)
  then have "unat (ucast ?e :: 32 word) = ?E"
    unfolding unsigned_ucast_eq e by simp
  then have "unat ((ucast ?e :: 32 word) div 4) = ?E div 4" by (simp only: unat_div) simp
  moreover have "take_bit 64 (?E div 4) = ?E div 4"
    using E(1) by (simp only: take_bit_nat_eq_self_iff) simp
  ultimately have w: "unat words = ?E div 4"
    unfolding words_def unsigned_ucast_eq by simp
  have ev: "?E div 4 mod 2 = 0" using E(2) by presburger
  have "unat (words mod 2) = ?E div 4 mod 2" by (simp only: unat_mod w) simp
  then have "unat (words mod 2) = 0" using ev by simp
  then have m: "words mod 2 = 0" by (simp only: unat_eq_0)
  have "?E div 4 * 4 = ?E" using E(2) by presburger
  then have "unat words * unat (4 :: 64 word) < 2 ^ LENGTH(64)" using w E(1) by simp
  then have "unat (words * 4) = unat words * unat (4 :: 64 word)" by (simp only: unat_mult_lem)
  then have "unat (words * 4) = ?E" using w \<open>?E div 4 * 4 = ?E\<close> by simp
  then show ?thesis using m by simp
qed

section \<open>Allocation\<close>

lemma free_not_used:
  assumes t: "tags_ok s bs" and m: "(r, c, False) \<in> set (chain s bs)"
  shows "r \<notin> fst ` used_blocks s bs" "r \<noteq> 0" "8 dvd r"
proof -
  have "r \<in> free_slots s bs" using m by (auto simp: free_slots_def)
  then show "r \<notin> fst ` used_blocks s bs"
    using used_not_free [OF t, of r] unfolding used_slots_blocks by auto
  show "r \<noteq> 0" "8 dvd r" using chain_block(3,4) [OF t m] by simp_all
qed

lemma malloc_inv:
  assumes i: "heap_inv s bs fl" and sz: "unat sz \<le> 2 ^ 32 - 16"
  shows "\<exists>r s' bs' fl'. mm_malloc sz s = Some (r, s') \<and> heap_inv s' bs' fl' \<and>
           mem_heap s' = mem_heap s \<and> mem_max_addr s' = mem_max_addr s \<and>
           (r = 0 \<and> used_blocks s' bs' = used_blocks s bs \<or>
            r \<noteq> 0 \<and> 8 dvd r \<and> r \<notin> fst ` used_blocks s bs \<and>
            (\<exists>N. used_blocks s' bs' = insert (r, N) (used_blocks s bs) \<and> unat sz + 8 \<le> N))"
proof (cases "sz = 0")
  case True
  then have "mm_malloc sz s = Some (0, s)" by (simp add: mm_malloc_def)
  then show ?thesis using i by blast
next
  case False
  define asize where "asize = malloc_asize sz"
  note a = malloc_asize_facts [OF sz, folded asize_def]
  from find_fit_inv [OF i, of asize] obtain r where
    ff: "find_fit asize s = Some r"
    and r: "r = 0 \<or> (\<exists>c. (r, c, False) \<in> set (chain s bs) \<and> unat asize \<le> c)" by blast
  show ?thesis
  proof (cases "r = 0")
    case rz: False
    then obtain c where c: "(r, c, False) \<in> set (chain s bs)" "unat asize \<le> c" using r by blast
    from place_inv [OF i c(1) a(1,2) c(2)]
    obtain s' bs' fl' N where p: "place r asize s = Some s'" "heap_inv s' bs' fl'"
      "mem_heap s' = mem_heap s" "mem_max_addr s' = mem_max_addr s"
      "used_blocks s' bs' = insert (r, N) (used_blocks s bs)" "unat asize \<le> N" by blast
    have "mm_malloc sz s = Some (r, s')"
      using False ff rz p(1) by (simp add: mm_malloc_def Let_def asize_def [symmetric])
    moreover have "unat sz + 8 \<le> N" using a(3) p(6) by simp
    ultimately show ?thesis
      using p(2-5) free_not_used [OF heap_invD(1) [OF i] c(1)] by blast
  next
    case True
    define words where "words = (ucast ((ucast (if asize > 512 then asize else 512) :: 32 word) div 4) :: 64 word)"
    let ?sz = "if words mod 2 \<noteq> 0 then (words + 1) * 4 else words * 4"
    have E: "unat ?sz = max (unat asize) 512"
      unfolding words_def by (rule extend_words [OF a(2,4)])
    have B: "24 \<le> unat ?sz" "8 dvd unat ?sz" "unat ?sz < 2 ^ 32"
      unfolding E using a by (auto simp: max_def)
    from extend_inv [OF i B]
    obtain r1 s1 bs1 fl1 where e: "extend_heap words s = Some (r1, s1)" "heap_inv s1 bs1 fl1"
      "mem_heap s1 = mem_heap s" "mem_max_addr s1 = mem_max_addr s"
      "used_blocks s1 bs1 = used_blocks s bs"
      "r1 = 0 \<or> (\<exists>N. (r1, N, False) \<in> set (chain s1 bs1) \<and> unat ?sz \<le> N)" by blast
    show ?thesis
    proof (cases "r1 = 0")
      case True
      then have "mm_malloc sz s = Some (0, s1)"
        using False ff \<open>r = 0\<close> e(1)
        by (simp add: mm_malloc_def Let_def asize_def [symmetric] words_def [symmetric])
      then show ?thesis using e(2-5) by blast
    next
      case r1: False
      then obtain c where c: "(r1, c, False) \<in> set (chain s1 bs1)" "unat ?sz \<le> c" using e(6) by blast
      have le: "unat asize \<le> c" using c(2) unfolding E by simp
      from place_inv [OF e(2) c(1) a(1,2) le]
      obtain s' bs' fl' N where p: "place r1 asize s1 = Some s'" "heap_inv s' bs' fl'"
        "mem_heap s' = mem_heap s1" "mem_max_addr s' = mem_max_addr s1"
        "used_blocks s' bs' = insert (r1, N) (used_blocks s1 bs1)" "unat asize \<le> N" by blast
      have "mm_malloc sz s = Some (r1, s')"
        using False ff \<open>r = 0\<close> e(1) r1 p(1)
        by (simp add: mm_malloc_def Let_def asize_def [symmetric] words_def [symmetric])
      moreover have "unat sz + 8 \<le> N" using a(3) p(6) by simp
      ultimately show ?thesis
        using p(2-5) e(3-5) free_not_used [OF heap_invD(1) [OF e(2)] c(1)] by (simp, blast)
    qed
  qed
qed

section \<open>Initialisation and stores into a payload\<close>

lemma heap_inv_heap_listp [simp]: "heap_inv (s\<lparr>heap_listp := x\<rparr>) bs fl = heap_inv s bs fl"
  by (simp add: heap_inv_def tags_ok_def list_ok_def free_slots_def chain_def arena_ok_def)

lemma used_blocks_heap_listp [simp]: "used_blocks (s\<lparr>heap_listp := x\<rparr>) bs = used_blocks s bs"
  by (simp add: used_blocks_def chain_def)

text \<open>Stores into the payload of an allocated block, short of its footer.\<close>

lemma payload_write:
  assumes i: "heap_inv s bs fl" and u: "(p, N) \<in> used_blocks s bs"
    and fr: "\<And>q. q < p \<or> p + N - 8 \<le> q \<Longrightarrow> m' q = mem s q"
  shows "heap_inv (s\<lparr>mem := m'\<rparr>) bs fl" "used_blocks (s\<lparr>mem := m'\<rparr>) bs = used_blocks s bs"
proof -
  note d = heap_invD [OF i]
  let ?s' = "s\<lparr>mem := m'\<rparr>"
  have m: "(p, N, True) \<in> set (chain s bs)" using u by (simp add: used_blocks_def)
  note bb = chain_block [OF d(1) m]
  have t': "tags_ok ?s' bs"
  proof (rule tags_frame [OF d(1)])
    fix q assume "\<And>a n al. (a, n, al) \<in> set (chain s bs) \<Longrightarrow> q < a \<or> a + n - 8 \<le> q"
    from this [OF m] show "mem ?s' q = mem s q" using fr by simp
  qed simp_all
  have l': "list_ok ?s' fl"
  proof (rule list_frame [OF d(2)])
    fix x q assume x: "x \<in> set fl" and q: "x \<le> q" "q < x + 16"
    from x d(3) obtain n where n: "(x, n, False) \<in> set (chain s bs)" by (auto simp: free_slots_def)
    from chain_apart [OF n m tags_okD(2) [OF d(1)]] chain_block(1) [OF d(1) n] q
    have "q < p \<or> p + N - 8 \<le> q" by auto
    then show "mem ?s' q = mem s q" using fr by simp
  qed simp_all
  have "free_slots ?s' bs = free_slots s bs" by (simp add: free_slots_def chain_def)
  then show "heap_inv ?s' bs fl" using t' l' d(3,4) by (simp add: heap_inv_def)
  show "used_blocks ?s' bs = used_blocks s bs" by (simp add: used_blocks_def chain_def)
qed

lemma init_inv:
  assumes a: "arena_pre s"
  shows "(\<exists>s'. mm_init s = Some (- 1, s')) \<or>
         (\<exists>s' bs fl. mm_init s = Some (0, s') \<and> heap_inv s' bs fl \<and> used_blocks s' bs = {} \<and>
            mem_heap s' = mem_heap s \<and> mem_max_addr s' = mem_max_addr s)"
proof (cases "mem_brk s + 16 > mem_max_addr s")
  case True
  then have "\<exists>s'. mm_init s = Some (- 1, s')"
    by (simp add: mm_init_def Let_def mem_sbrk_def WSIZE_def)
  then show ?thesis ..
next
  case False
  let ?h = "mem_heap s"
  define s5 where "s5 = s\<lparr>dl_start := 0, dl_end := 0, mem_brk := ?h + 16, heap_listp := ?h,
    mem := store32 (store32 (store32 (store32 (mem s) ?h 0) (?h + 4) 9) (?h + 8) 9) (?h + 12) 1\<rparr>"
  have nine: "(ucast (PACK 8 1) :: 32 word) = 9" and one: "(ucast (PACK 0 1) :: 32 word) = 1"
    by (simp_all add: PACK_def)
  have mi: "mm_init s = do { (bp, s) \<leftarrow> extend_heap (MINCHUNKSIZE div 4) s5; Some (0, s\<lparr>heap_listp := bp\<rparr>) }"
    using False a
    by (simp add: mm_init_def Let_def mem_sbrk_def WSIZE_def PUT_def nine one s5_def arena_pre_def)
  have f5: "mem_heap s5 = ?h" "mem_brk s5 = ?h + 16" "mem_max_addr s5 = mem_max_addr s"
    "dl_start s5 = 0" "dl_end s5 = 0" by (simp_all add: s5_def)
  have m5: "mem s5 = store32 (store32 (store32 (store32 (mem s) ?h 0) (?h + 4) 9) (?h + 8) 9) (?h + 12) 1"
    by (simp add: s5_def)
  have "arena_ok s5" using a False by (simp add: arena_ok_def arena_pre_def f5)
  moreover have "load32 (mem s5) (?h + 4) = 9" "load32 (mem s5) (?h + 8) = 9" "load32 (mem s5) (?h + 12) = 1"
    unfolding m5 by (simp_all add: load32_store32)
  moreover have "load32 (mem s5) (mem_brk s5 - 4) = load32 (mem s5) (?h + 12)"
    by (simp add: f5 add.commute)
  ultimately have "tags_ok s5 []" unfolding tags_ok_def chain_def
    by (simp only: f5(1) layout.simps sizes_ok_simps total_simps) (simp add: f5(2))
  moreover have "list_ok s5 []" by (simp add: list_ok_def f5)
  ultimately have i5: "heap_inv s5 [] []"
    by (simp add: heap_inv_def free_slots_def chain_def)
  let ?sz = "if (MINCHUNKSIZE div 4) mod 2 \<noteq> 0 then (MINCHUNKSIZE div 4 + 1) * 4 else (MINCHUNKSIZE div 4) * 4"
  have sz: "?sz = 24" by (simp add: MINCHUNKSIZE_def)
  have B: "24 \<le> unat ?sz" "8 dvd unat ?sz" "unat ?sz < 2 ^ 32" unfolding sz by simp_all
  from extend_inv [OF i5 B]
  obtain r s' bs' fl' where e: "extend_heap (MINCHUNKSIZE div 4) s5 = Some (r, s')"
    "heap_inv s' bs' fl'" "mem_heap s' = mem_heap s5" "mem_max_addr s' = mem_max_addr s5"
    "used_blocks s' bs' = used_blocks s5 []" by blast
  have "mm_init s = Some (0, s'\<lparr>heap_listp := r\<rparr>)" using mi e(1) by simp
  moreover have "used_blocks s5 [] = {}" by (simp add: used_blocks_def chain_def)
  ultimately have "mm_init s = Some (0, s'\<lparr>heap_listp := r\<rparr>) \<and> heap_inv (s'\<lparr>heap_listp := r\<rparr>) bs' fl' \<and>
      used_blocks (s'\<lparr>heap_listp := r\<rparr>) bs' = {} \<and>
      mem_heap (s'\<lparr>heap_listp := r\<rparr>) = mem_heap s \<and> mem_max_addr (s'\<lparr>heap_listp := r\<rparr>) = mem_max_addr s"
    using e(2-5) f5 by simp
  then show ?thesis by blast
qed

section \<open>Reallocation\<close>

lemma used_slotsD:
  assumes "p \<in> used_slots s bs"
  obtains n where "(p, n, True) \<in> set (chain s bs)" "(p, n) \<in> used_blocks s bs"
  using assms by (auto simp: used_slots_def used_blocks_def)

lemma realloc_copy_inv:
  assumes i: "heap_inv s bs fl" and u: "ptr \<in> used_slots s bs" and sz: "unat sz \<le> 2 ^ 32 - 16"
  shows "\<exists>r s' bs' fl'. realloc_copy ptr sz oldsize s = Some (r, s') \<and> heap_inv s' bs' fl' \<and>
           mem_heap s' = mem_heap s \<and> mem_max_addr s' = mem_max_addr s \<and> r \<noteq> ptr \<and>
           (r \<noteq> 0 \<longrightarrow> 8 dvd r) \<and>
           used_slots s' bs' = (if r = 0 then used_slots s bs else insert r (used_slots s bs - {ptr}))"
proof -
  from u obtain n where n: "(ptr, n, True) \<in> set (chain s bs)" by (rule used_slotsD)
  have p0: "ptr \<noteq> 0" using chain_block(4) [OF heap_invD(1) [OF i] n] by simp
  from malloc_inv [OF i sz]
  obtain r s1 bs1 fl1 where m: "mm_malloc sz s = Some (r, s1)" "heap_inv s1 bs1 fl1"
    "mem_heap s1 = mem_heap s" "mem_max_addr s1 = mem_max_addr s"
    and c: "r = 0 \<and> used_blocks s1 bs1 = used_blocks s bs \<or>
            r \<noteq> 0 \<and> 8 dvd r \<and> r \<notin> fst ` used_blocks s bs \<and>
            (\<exists>N. used_blocks s1 bs1 = insert (r, N) (used_blocks s bs) \<and> unat sz + 8 \<le> N)"
    by blast
  show ?thesis
  proof (cases "r = 0")
    case True
    then have "realloc_copy ptr sz oldsize s = Some (0, s1)" using m(1) by (simp add: realloc_copy_def)
    moreover have "used_slots s1 bs1 = used_slots s bs" using c True by (simp add: used_slots_blocks)
    ultimately show ?thesis using m(2-4) p0 True
      by (intro exI [of _ 0] exI [of _ s1] exI [of _ bs1] exI [of _ fl1]) simp
  next
    case False
    then obtain N where N: "8 dvd r" "r \<notin> fst ` used_blocks s bs"
      "used_blocks s1 bs1 = insert (r, N) (used_blocks s bs)" "unat sz + 8 \<le> N" using c by blast
    define cnt where "cnt = unat (if sz < oldsize then sz else oldsize)"
    have cnt: "cnt \<le> unat sz" by (auto simp: cnt_def word_less_nat_alt)
    define s2 where "s2 = s1\<lparr>mem := memcpy r ptr cnt (mem s1)\<rparr>"
    have rc: "realloc_copy ptr sz oldsize s = do { s \<leftarrow> mm_free ptr s2; Some (r, s) }"
      using m(1) False by (simp add: realloc_copy_def Let_def s2_def cnt_def)
    have rin: "(r, N) \<in> used_blocks s1 bs1" using N(3) by simp
    have fr: "memcpy r ptr cnt (mem s1) q = mem s1 q" if "q < r \<or> r + N - 8 \<le> q" for q
      using that cnt N(4) by (auto simp: memcpy_def)
    have i2: "heap_inv s2 bs1 fl1" and u2: "used_blocks s2 bs1 = used_blocks s1 bs1"
      unfolding s2_def using payload_write [OF m(2) rin fr] by simp_all
    have us2: "used_slots s2 bs1 = insert r (used_slots s bs)"
      unfolding used_slots_blocks u2 N(3) by simp
    then have pin: "ptr \<in> used_slots s2 bs1" using u by simp
    from free_inv [OF i2 pin]
    obtain s' bs' fl' where f: "mm_free ptr s2 = Some s'" "heap_inv s' bs' fl'"
      "mem_heap s' = mem_heap s2" "mem_max_addr s' = mem_max_addr s2"
      "used_slots s' bs' = used_slots s2 bs1 - {ptr}" by blast
    have ne: "r \<noteq> ptr" using N(2) u by (auto simp: used_slots_blocks)
    have "realloc_copy ptr sz oldsize s = Some (r, s')" using rc f(1) by simp
    moreover have "used_slots s' bs' = insert r (used_slots s bs - {ptr})" using f(5) us2 ne by auto
    moreover have "mem_heap s' = mem_heap s" "mem_max_addr s' = mem_max_addr s"
      using f(3,4) m(3,4) by (simp_all add: s2_def)
    ultimately show ?thesis using f(2) ne False N(1)
      by (intro exI [of _ r] exI [of _ s'] exI [of _ bs'] exI [of _ fl']) simp
  qed
qed

text \<open>The in-place growth of \<^verbatim>\<open>mm_realloc\<close>: the free block after the block is taken out of
  the list and the tags of the two blocks become those of one allocated block.\<close>

lemma grow_in_place:
  assumes i: "heap_inv s (pre @ (n, True) # (m, False) # post) fl"
    and p: "ptr = mem_heap s + 16 + total_size pre"
  defines "s1 \<equiv> remove_freeblock (ptr + n) s"
  defines "s' \<equiv> s1\<lparr>mem := write_tags (mem s1) ptr (n + m) True\<rparr>"
  shows "heap_inv s' (pre @ (n + m, True) # post) (remove1 (ptr + n) fl)"
    and "used_slots s' (pre @ (n + m, True) # post) = used_slots s (pre @ (n, True) # (m, False) # post)"
    and "\<And>q. ptr \<le> q \<Longrightarrow> q < ptr + n - 8 \<Longrightarrow> mem s' q = mem s q"
    and "mem_heap s' = mem_heap s" "mem_brk s' = mem_brk s" "mem_max_addr s' = mem_max_addr s"
proof -
  let ?bs = "pre @ (n, True) # (m, False) # post"
  let ?bs' = "pre @ (n + m, True) # post"
  let ?fl' = "remove1 (ptr + n) fl"
  note d = heap_invD [OF i]
  have mb: "(ptr, n, True) \<in> set (chain s ?bs)" unfolding p by (rule chain_mid)
  have mn: "(ptr + n, m, False) \<in> set (chain s ?bs)" unfolding p by (rule chain_after)
  note bb = chain_block [OF d(1) mb]
  note bn = chain_block [OF d(1) mn]
  have nin: "ptr + n \<in> set fl" using d(3) mn by (auto simp: free_slots_def)
  have w1: "heap_wf s1 ?bs ?fl'" unfolding s1_def by (rule wf_remove(1) [OF d(5) nin])
  have f1: "mem_heap s1 = mem_heap s" "mem_brk s1 = mem_brk s" "mem_max_addr s1 = mem_max_addr s"
    by (simp_all add: s1_def)
  show f': "mem_heap s' = mem_heap s" "mem_brk s' = mem_brk s" "mem_max_addr s' = mem_max_addr s"
    by (simp_all add: s'_def f1)
  have dist: "distinct fl" using list_okD(1) [OF d(2)] .
  have w1': "heap_wf s1 (pre @ [(n, True), (m, False)] @ post) ?fl'" using w1 by simp
  have "heap_wf s' (pre @ [(n + m, True)] @ post) ?fl'"
  proof (rule wf_retag [OF w1', where a = ptr])
    show "sizes_ok [(n + m, True)]" using bb(1,2) bn(2) by simp
    show "total_size [(n + m, True)] = total_size [(n, True), (m, False)]" by simp
    show "mem_heap s' = mem_heap s1" "mem_brk s' = mem_brk s1" "mem_max_addr s' = mem_max_addr s1"
      "dl_start s' = dl_start s1" "dl_end s' = dl_end s1" by (simp_all add: s'_def)
    show "ptr = mem_heap s1 + 16 + total_size pre" using p f1 by simp
    show "mem s' q = mem s1 q" if "q < ptr - 4 \<or> ptr + total_size [(n, True), (m, False)] - 4 \<le> q" for q
      unfolding s'_def using that bb(1,4) by (simp, intro write_tags_other) auto
    show "load32 (mem s') (b - 4) = tag k al \<and> load32 (mem s') (b + k - 8) = tag k al"
      if "(b, k, al) \<in> set (layout ptr [(n + m, True)])" for b k al
      using that bb(1,4) unfolding s'_def by (simp add: write_tags_read)
    show "(\<exists>k. (x, k, False) \<in> set (layout ptr [(n + m, True)])) \<and>
          (\<forall>q. x \<le> q \<and> q < x + 16 \<longrightarrow> mem s' q = mem s1 q)"
      if x: "x \<in> set ?fl'" and l: "(x, k, False) \<in> set (layout ptr [(n, True), (m, False)])" for x k
      using x l dist by auto
  qed
  then have w': "heap_wf s' ?bs' ?fl'" by simp
  have fs: "free_slots s' ?bs' = free_slots s ?bs - {ptr + n}"
  proof -
    have a: "free_slots s' ?bs' =
        {x. \<exists>j. (x, j, False) \<in> set (layout (mem_heap s + 16) pre)} \<union>
        {x. \<exists>j. (x, j, False) \<in> set (layout (ptr + n + m) post)}"
      using free_slots_parts [of s' pre "[(n + m, True)]" post] unfolding f' p by (auto simp: add.assoc)
    have b: "free_slots s ?bs =
        {x. \<exists>j. (x, j, False) \<in> set (layout (mem_heap s + 16) pre)} \<union> {ptr + n} \<union>
        {x. \<exists>j. (x, j, False) \<in> set (layout (ptr + n + m) post)}"
      using free_slots_parts [of s pre "[(n, True), (m, False)]" post] unfolding p by (auto simp: add.assoc)
    have "ptr + n \<notin> {x. \<exists>j. (x, j, False) \<in> set (layout (mem_heap s + 16) pre)}"
      using layout_bounds [of "ptr + n" _ False "mem_heap s + 16" pre] layout_sizes [of "ptr + n" _ False "mem_heap s + 16" pre]
        tags_okD(2) [OF d(1)] bb(1) unfolding p by fastforce
    moreover have "ptr + n \<notin> {x. \<exists>j. (x, j, False) \<in> set (layout (ptr + n + m) post)}"
      using layout_bounds [of "ptr + n" _ False "ptr + n + m" post] bn(1) by fastforce
    ultimately show ?thesis unfolding a b by auto
  qed
  have "set ?fl' = free_slots s' ?bs'" using fs d(3) dist by auto
  moreover have "no_adj ?bs'" using d(4) by (auto simp: no_adj_append no_adj_Cons)
  ultimately show "heap_inv s' ?bs' ?fl'" using w' by (simp add: heap_inv_def heap_wf_def)
  show "used_slots s' ?bs' = used_slots s ?bs"
    using used_slots_parts [of s' pre "[(n + m, True)]" post]
      used_slots_parts [of s pre "[(n, True), (m, False)]" post]
    unfolding f' p by auto
  show "mem s' q = mem s q" if q: "ptr \<le> q" "q < ptr + n - 8" for q
  proof -
    have "mem s' q = mem s1 q"
      unfolding s'_def using q bb(1,4) by (simp, intro write_tags_other) auto
    also have "mem s1 q = mem s q"
      unfolding s1_def
    proof (rule wf_remove(2) [OF d(5) nin], rule ballI)
      fix y assume "y \<in> free_slots s ?bs"
      then obtain k where k: "(y, k, False) \<in> set (chain s ?bs)" by (auto simp: free_slots_def)
      from chain_apart [OF k mb tags_okD(2) [OF d(1)]] chain_block(1) [OF d(1) k] q
      show "q < y \<or> y + 16 \<le> q" by auto
    qed
    finally show ?thesis .
  qed
qed

lemma used_pos:
  assumes "tags_ok s bs"
  shows "0 \<notin> used_slots s bs"
proof
  assume "0 \<in> used_slots s bs"
  then obtain n where "(0, n, True) \<in> set (chain s bs)" by (rule used_slotsD)
  from chain_block(4) [OF assms this] show False by simp
qed

lemma realloc_shrink_branch:
  assumes t: "tags_ok s bs" and u: "(ptr, n, True) \<in> set (chain s bs)" and sz0: "sz \<noteq> 0"
    and lt: "realloc_asize sz < word_of_nat n"
  shows "mm_realloc ptr sz s = Some (ptr, s)"
proof -
  have p0: "ptr \<noteq> 0" using chain_block(4) [OF t u] by simp
  have os: "(ucast (GET_SIZE s (HDRP ptr)) :: 64 word) = word_of_nat n" by (rule chain_read(8) [OF t u])
  have "shrink ptr (realloc_asize sz) s = Some s"
    by (rule shrink_noop) (use lt os in simp)
  then show ?thesis using p0 sz0 lt os by (simp add: mm_realloc_def Let_def)
qed

lemma realloc_copy_branch:
  assumes t: "tags_ok s (pre @ (n, True) # post)" and p: "ptr = mem_heap s + 16 + total_size pre"
    and sz0: "sz \<noteq> 0" and ge: "\<not> realloc_asize sz < word_of_nat n"
    and nx: "post = [] \<or> snd (hd post)"
  shows "mm_realloc ptr sz s = realloc_copy ptr sz (word_of_nat n) s"
proof -
  have u: "(ptr, n, True) \<in> set (chain s (pre @ (n, True) # post))" unfolding p by (rule chain_mid)
  have p0: "ptr \<noteq> 0" using chain_block(4) [OF t u] by simp
  have os: "(ucast (GET_SIZE s (HDRP ptr)) :: 64 word) = word_of_nat n" by (rule chain_read(8) [OF t u])
  have "GET_ALLOC s (HDRP (NEXT_BLKP s ptr)) = 1" using next_alloc_read(2) [OF t p] nx by simp
  then show ?thesis using p0 sz0 ge os by (simp add: mm_realloc_def Let_def)
qed

lemma realloc_grow_branch:
  assumes i: "heap_inv s (pre @ (n, True) # (m, False) # post) fl"
    and p: "ptr = mem_heap s + 16 + total_size pre"
    and sz0: "sz \<noteq> 0" and ge: "\<not> realloc_asize sz < word_of_nat n"
  shows "mm_realloc ptr sz s =
     (if unat sz \<le> n + m
      then Some (ptr, (remove_freeblock (ptr + n) s)
             \<lparr>mem := write_tags (mem (remove_freeblock (ptr + n) s)) ptr (n + m) True\<rparr>)
      else realloc_copy ptr sz (word_of_nat n) s)"
proof -
  let ?bs = "pre @ (n, True) # (m, False) # post"
  note d = heap_invD [OF i]
  note t = d(1)
  have u: "(ptr, n, True) \<in> set (chain s ?bs)" unfolding p by (rule chain_mid)
  have mn: "(ptr + n, m, False) \<in> set (chain s ?bs)" unfolding p by (rule chain_after)
  note bb = chain_block [OF t u]
  note bn = chain_block [OF t mn]
  have p0: "ptr \<noteq> 0" using bb(4) by simp
  have os: "(ucast (GET_SIZE s (HDRP ptr)) :: 64 word) = word_of_nat n" by (rule chain_read(8) [OF t u])
  have nxt: "NEXT_BLKP s ptr = ptr + n" by (rule chain_read(6) [OF t u])
  have na: "GET_ALLOC s (HDRP (ptr + n)) = 0" using chain_read(5) [OF t mn] by simp
  have t2: "tags_ok s ((pre @ [(n, True)]) @ (m, False) # post)" using t by simp
  have p2: "ptr + n = mem_heap s + 16 + total_size (pre @ [(n, True)])" using p by simp
  have "GET_ALLOC s (HDRP (PREV_BLKP s (ptr + n))) = 1"
    using prev_alloc_read(1) [OF t2 p2] by simp
  moreover have "GET_ALLOC s (HDRP (NEXT_BLKP s (ptr + n))) = 1"
    using next_alloc_read(2) [OF t2 p2] d(4) by (auto simp: no_adj_append no_adj_Cons)
  ultimately have co: "coalesce (ptr + n) s = Some (ptr + n, s)"
    by (subst coalesce.simps) simp
  have lt: "n + m < 2 ^ 32"
    using bn(5) bb(4) tags_okD(1) [OF t] by (simp add: arena_ok_def)
  let ?sum = "GET_SIZE s (HDRP (ptr + n)) + GET_SIZE s (HDRP ptr)"
  have "unat (GET_SIZE s (HDRP (ptr + n))) + unat (GET_SIZE s (HDRP ptr)) < 2 ^ LENGTH(32)"
    unfolding chain_read(3) [OF t mn] chain_read(3) [OF t u] using lt by simp
  then have "unat ?sum = unat (GET_SIZE s (HDRP (ptr + n))) + unat (GET_SIZE s (HDRP ptr))"
    by (simp only: unat_add_lem)
  then have us: "unat ?sum = n + m"
    unfolding chain_read(3) [OF t mn] chain_read(3) [OF t u] by simp
  have "take_bit 32 (n + m) = n + m" using lt by (simp only: take_bit_nat_eq_self_iff)
  have uns: "unat (ucast ?sum :: 64 word) = n + m"
    unfolding unsigned_ucast_eq us using lt by (simp add: take_bit_nat_eq_self_iff)
  have cmp: "(sz \<le> (ucast ?sum :: 64 word)) = (unat sz \<le> n + m)"
    unfolding word_le_nat_alt uns ..
  have dv: "8 dvd unat (ucast ?sum :: 64 word)" "unat (ucast ?sum :: 64 word) < 2 ^ 32"
    unfolding uns using bb(2) bn(2) lt by simp_all
  have pb: "PUT (FTRP (PUT (HDRP ptr) (PACK (ucast ?sum) 1) (remove_freeblock (ptr + n) s)) ptr)
      (PACK (ucast ?sum) 1) (PUT (HDRP ptr) (PACK (ucast ?sum) 1) (remove_freeblock (ptr + n) s)) =
      (remove_freeblock (ptr + n) s)\<lparr>mem := write_tags (mem (remove_freeblock (ptr + n) s)) ptr (n + m) True\<rparr>"
    using PUT_block(1) [where w = "ucast ?sum" and al = True and c = 1 and bp = ptr
        and s = "remove_freeblock (ptr + n) s", OF dv] uns by simp
  show ?thesis
    using p0 sz0 ge os na by (simp add: mm_realloc_def Let_def nxt co cmp pb)
qed

lemma realloc_inv:
  assumes i: "heap_inv s bs fl" and u: "ptr \<in> used_slots s bs \<or> ptr = 0"
    and sz: "unat sz \<le> 2 ^ 32 - 16"
  shows "\<exists>r s' bs' fl'. mm_realloc ptr sz s = Some (r, s') \<and> heap_inv s' bs' fl' \<and>
           mem_heap s' = mem_heap s \<and> mem_max_addr s' = mem_max_addr s \<and>
           (r \<noteq> 0 \<longrightarrow> 8 dvd r) \<and>
           used_slots s' bs' =
             (if r = 0 then (if sz = 0 then used_slots s bs - {ptr} else used_slots s bs)
              else insert r (used_slots s bs - {ptr}))"
proof -
  note d = heap_invD [OF i]
  note z = used_pos [OF d(1)]
  show ?thesis
  proof (cases "sz = 0")
    case True
    show ?thesis
    proof (cases "ptr = 0")
      case p0: True
      then have "mm_realloc ptr sz s = Some (0, s)" using True by (simp add: mm_realloc_def mm_free_def)
      then show ?thesis using i True p0 z
        by (intro exI [of _ 0] exI [of _ s] exI [of _ bs] exI [of _ fl]) simp
    next
      case False
      then have "ptr \<in> used_slots s bs" using u by simp
      from free_inv [OF i this]
      obtain s' bs' fl' where f: "mm_free ptr s = Some s'" "heap_inv s' bs' fl'"
        "mem_heap s' = mem_heap s" "mem_max_addr s' = mem_max_addr s"
        "used_slots s' bs' = used_slots s bs - {ptr}" by blast
      have "mm_realloc ptr sz s = Some (0, s')" using True f(1) by (simp add: mm_realloc_def)
      then show ?thesis using f(2-5) True
        by (intro exI [of _ 0] exI [of _ s'] exI [of _ bs'] exI [of _ fl']) simp
    qed
  next
    case sz0: False
    show ?thesis
    proof (cases "ptr = 0")
      case True
      from malloc_inv [OF i sz]
      obtain r s' bs' fl' where m: "mm_malloc sz s = Some (r, s')" "heap_inv s' bs' fl'"
        "mem_heap s' = mem_heap s" "mem_max_addr s' = mem_max_addr s"
        and c: "r = 0 \<and> used_blocks s' bs' = used_blocks s bs \<or>
            r \<noteq> 0 \<and> 8 dvd r \<and> r \<notin> fst ` used_blocks s bs \<and>
            (\<exists>N. used_blocks s' bs' = insert (r, N) (used_blocks s bs) \<and> unat sz + 8 \<le> N)"
        by blast
      have mr: "mm_realloc ptr sz s = Some (r, s')" using True sz0 m(1) by (simp add: mm_realloc_def)
      have "(r \<noteq> 0 \<longrightarrow> 8 dvd r) \<and> used_slots s' bs' =
          (if r = 0 then used_slots s bs else insert r (used_slots s bs - {ptr}))"
        using c z True unfolding used_slots_blocks by auto
      then show ?thesis using mr m(2-4) sz0
        by (intro exI [of _ r] exI [of _ s'] exI [of _ bs'] exI [of _ fl']) simp
    next
      case False
      then have pin: "ptr \<in> used_slots s bs" using u by simp
      then obtain n where n: "(ptr, n, True) \<in> set (chain s bs)" by (rule used_slotsD)
      then obtain pre post where bs: "bs = pre @ (n, True) # post"
        and p: "ptr = mem_heap s + 16 + total_size pre"
        using layout_split [of ptr n True "mem_heap s + 16" bs] by (auto simp: chain_def)
      note bb = chain_block [OF d(1) n]
      show ?thesis
      proof (cases "realloc_asize sz < word_of_nat n")
        case True
        have "mm_realloc ptr sz s = Some (ptr, s)"
          by (rule realloc_shrink_branch [OF d(1) n sz0 True])
        moreover have "insert ptr (used_slots s bs - {ptr}) = used_slots s bs" using pin by auto
        ultimately show ?thesis using i False bb(3)
          by (intro exI [of _ ptr] exI [of _ s] exI [of _ bs] exI [of _ fl]) simp
      next
        case ge: False
        from realloc_copy_inv [OF i pin sz, of "word_of_nat n"]
        obtain r s' bs' fl' where rc: "realloc_copy ptr sz (word_of_nat n) s = Some (r, s')"
          "heap_inv s' bs' fl'" "mem_heap s' = mem_heap s" "mem_max_addr s' = mem_max_addr s"
          "r \<noteq> 0 \<longrightarrow> 8 dvd r"
          "used_slots s' bs' = (if r = 0 then used_slots s bs else insert r (used_slots s bs - {ptr}))"
          by blast
        have copy: ?thesis if "mm_realloc ptr sz s = realloc_copy ptr sz (word_of_nat n) s"
          using that rc sz0
          by (intro exI [of _ r] exI [of _ s'] exI [of _ bs'] exI [of _ fl']) simp
        show ?thesis
        proof (cases "post = [] \<or> snd (hd post)")
          case True
          show ?thesis
            by (rule copy, rule realloc_copy_branch [OF d(1) [unfolded bs] p sz0 ge True])
        next
          case False
          then obtain m post' where post: "post = (m, False) # post'"
            by (cases post) auto
          have i': "heap_inv s (pre @ (n, True) # (m, False) # post') fl" using i bs post by simp
          note g = grow_in_place [OF i' p]
          note rb = realloc_grow_branch [OF i' p sz0 ge]
          show ?thesis
          proof (cases "unat sz \<le> n + m")
            case True
            let ?s' = "(remove_freeblock (ptr + n) s)
               \<lparr>mem := write_tags (mem (remove_freeblock (ptr + n) s)) ptr (n + m) True\<rparr>"
            have "mm_realloc ptr sz s = Some (ptr, ?s')" using rb True by simp
            moreover have "insert ptr (used_slots s bs - {ptr}) = used_slots s bs" using pin by auto
            ultimately show ?thesis using g(1,2,4,6) \<open>ptr \<noteq> 0\<close> bb(3) bs post
              by (intro exI [of _ ptr] exI [of _ ?s'] exI [of _ "pre @ (n + m, True) # post'"]
                  exI [of _ "remove1 (ptr + n) fl"]) simp
          next
            case False
            show ?thesis by (rule copy) (use rb False in simp)
          qed
        qed
      qed
    qed
  qed
qed



lemma calloc_inv:
  assumes i: "heap_inv s bs fl" and sz: "unat (nmemb * sz) \<le> 2 ^ 32 - 16"
    and c: "calloc nmemb sz s = Some (r, s')"
  shows "\<exists>bs' fl'. heap_inv s' bs' fl' \<and>
           mem_heap s' = mem_heap s \<and> mem_max_addr s' = mem_max_addr s \<and>
           (r \<noteq> 0 \<longrightarrow> 8 dvd r) \<and>
           used_slots s' bs' = (if r = 0 then used_slots s bs else insert r (used_slots s bs))"
proof -
  define bytes where "bytes = nmemb * sz"
  from malloc_inv [OF i sz, folded bytes_def]
  obtain r1 s1 bs1 fl1 where m: "mm_malloc bytes s = Some (r1, s1)" "heap_inv s1 bs1 fl1"
    "mem_heap s1 = mem_heap s" "mem_max_addr s1 = mem_max_addr s"
    and k: "r1 = 0 \<and> used_blocks s1 bs1 = used_blocks s bs \<or>
        r1 \<noteq> 0 \<and> 8 dvd r1 \<and> r1 \<notin> fst ` used_blocks s bs \<and>
        (\<exists>N. used_blocks s1 bs1 = insert (r1, N) (used_blocks s bs) \<and> unat bytes + 8 \<le> N)"
    by blast
  have ms: "memset_through r1 0 bytes s1 = Some s'" and r: "r = r1"
    using c m(1) unfolding calloc_def bytes_def [symmetric]
    by (auto simp: Let_def split: Option.bind_splits)
  then have nf: "\<not> (r1 = 0 \<and> bytes \<noteq> 0)" and s': "s' = s1\<lparr>mem := memset r1 0 (unat bytes) (mem s1)\<rparr>"
    by (auto simp: memset_through_def in_arena_def split: if_splits)
  show ?thesis
  proof (cases "r1 = 0")
    case True
    then have "bytes = 0" using nf by simp
    then have "memset r1 0 (unat bytes) (mem s1) = mem s1" by (intro ext) (auto simp: memset_def)
    then have "s' = s1" using s' by simp
    moreover have "used_slots s1 bs1 = used_slots s bs" using k True by (simp add: used_slots_blocks)
    ultimately show ?thesis using m(2-4) r True
      by (intro exI [of _ bs1] exI [of _ fl1]) simp
  next
    case False
    then obtain N where N: "8 dvd r1" "used_blocks s1 bs1 = insert (r1, N) (used_blocks s bs)"
      "unat bytes + 8 \<le> N" using k by blast
    have rin: "(r1, N) \<in> used_blocks s1 bs1" using N(2) by simp
    have fr: "memset r1 0 (unat bytes) (mem s1) q = mem s1 q" if "q < r1 \<or> r1 + N - 8 \<le> q" for q
      using that N(3) by (auto simp: memset_def)
    have i2: "heap_inv s' bs1 fl1" and u2: "used_blocks s' bs1 = used_blocks s1 bs1"
      unfolding s' using payload_write [OF m(2) rin fr] by simp_all
    have "used_slots s' bs1 = insert r1 (used_slots s bs)"
      unfolding used_slots_blocks u2 N(2) by simp
    then show ?thesis using i2 m(3,4) r False N(1)
      by (intro exI [of _ bs1] exI [of _ fl1]) (simp add: s')
  qed
qed

section \<open>The invariant of the reachable heaps\<close>

lemma reach_inv:
  assumes "reach s L"
  shows "\<exists>bs fl. heap_inv s bs fl \<and> L = used_slots s bs"
  using assms
proof (induction rule: reach.induct)
  case (init s0 s)
  from init_inv [OF init(1)] init(2)
  obtain bs fl where "heap_inv s bs fl" "used_blocks s bs = {}" by auto
  then show ?case by (auto simp: used_slots_blocks)
next
  case (malloc s L sz r s')
  then obtain bs fl where i: "heap_inv s bs fl" and L: "L = used_slots s bs" by blast
  from malloc_inv [OF i malloc(2)] malloc(3)
  obtain bs' fl' where i': "heap_inv s' bs' fl'"
    and c: "r = 0 \<and> used_blocks s' bs' = used_blocks s bs \<or>
            r \<noteq> 0 \<and> (\<exists>N. used_blocks s' bs' = insert (r, N) (used_blocks s bs))"
    by auto
  have "used_slots s' bs' = (if r = 0 then L else insert r L)"
    using c unfolding L used_slots_blocks by auto
  then show ?case using i' by auto
next
  case (free s L p s')
  then obtain bs fl where i: "heap_inv s bs fl" and L: "L = used_slots s bs" by blast
  show ?case
  proof (cases "p = 0")
    case True
    then have "s' = s" using free(3) by (simp add: mm_free_def)
    moreover have "L - {p} = L" using used_pos [OF heap_invD(1) [OF i]] True L by auto
    ultimately show ?thesis using i L by auto
  next
    case False
    then have "p \<in> used_slots s bs" using free(2) L by simp
    from free_inv [OF i this] free(3) show ?thesis unfolding L by auto
  qed
next
  case (realloc s L p sz r s')
  then obtain bs fl where i: "heap_inv s bs fl" and L: "L = used_slots s bs" by blast
  have "p \<in> used_slots s bs \<or> p = 0" using realloc(2) L by simp
  from realloc_inv [OF i this realloc(3)] realloc(4)
  show ?case unfolding L by auto
next
  case (calloc s L nmemb sz r s')
  then obtain bs fl where i: "heap_inv s bs fl" and L: "L = used_slots s bs" by blast
  from calloc_inv [OF i calloc(2,3)] show ?case unfolding L by auto
next
  case (store s L p m)
  then obtain bs fl where i: "heap_inv s bs fl" and L: "L = used_slots s bs" by blast
  from store(2) L obtain n where n: "(p, n, True) \<in> set (chain s bs)" "(p, n) \<in> used_blocks s bs"
    by (auto elim: used_slotsD)
  have un: "unat (GET_SIZE s (HDRP p)) = n" by (rule chain_read(3) [OF heap_invD(1) [OF i] n(1)])
  have fr: "m q = mem s q" if "q < p \<or> p + n - 8 \<le> q" for q
    using store(3) that unfolding un by blast
  from payload_write [OF i n(2) fr]
  have "heap_inv (s\<lparr>mem := m\<rparr>) bs fl" "used_blocks (s\<lparr>mem := m\<rparr>) bs = used_blocks s bs"
    by simp_all
  then show ?case using L by (auto simp: used_slots_blocks)
qed







section \<open>No two free neighbours, and alignment\<close>

lemma heap_freed_reached: "mm_free 4112 heap_one = Some heap_freed"
  apply (simp add: heap_one_def fresh_heap_def ev)
  apply (subst coalesce.simps)
  apply (simp add: ev heap_freed_def heap_one_def fresh_heap_def)
  done

lemma reach_fresh_heap: "reach fresh_heap {}"
  by (rule reach.init [OF _ fresh_heap_reached]) (simp add: arena_pre_def arena_def)

lemma reach_heap_one: "reach heap_one {4112}"
  using reach.malloc [OF reach_fresh_heap _ heap_one_reached] by simp

lemma list_ok_next_seg:
  assumes l: "list_ok s fl" and fl: "fl = xs @ ys"
  shows "next_seg s (if ys = [] then 0 else hd ys) ys 0"
  using fl
proof (induction ys arbitrary: xs)
  case Nil
  then show ?case by simp
next
  case (Cons y ys)
  note d = list_okD [OF l]
  have yin: "y \<in> set fl" using Cons.prems by simp
  have y0: "y \<noteq> 0" using d(6) yin by metis
  have "next_in fl y = (if ys = [] then 0 else hd ys)"
    using next_in_split [of xs y ys] d(1) Cons.prems by simp
  then have gn: "get_next s y = (if ys = [] then 0 else hd ys)"
    using list_ok_read(1) [OF l yin] by simp
  have "fl = (xs @ [y]) @ ys" using Cons.prems by simp
  from Cons.IH [OF this] show ?case using y0 gn by simp
qed

lemma list_ok_walk: "list_ok s fl \<Longrightarrow> next_seg s (dl_start s) fl 0"
  using list_ok_next_seg [of s fl "[]" fl] list_okD(2) [of s fl] by simp

lemma reach_returns:
  assumes "reach s L"
  shows "unat sz \<le> 2 ^ 32 - 16 \<Longrightarrow> \<exists>r s'. mm_malloc sz s = Some (r, s')"
    and "p \<in> L \<or> p = 0 \<Longrightarrow> \<exists>s'. mm_free p s = Some s'"
    and "p \<in> L \<or> p = 0 \<Longrightarrow> unat sz \<le> 2 ^ 32 - 16 \<Longrightarrow> \<exists>r s'. mm_realloc p sz s = Some (r, s')"
proof -
  from reach_inv [OF assms] obtain bs fl where i: "heap_inv s bs fl" and L: "L = used_slots s bs"
    by blast
  show "\<exists>r s'. mm_malloc sz s = Some (r, s')" if "unat sz \<le> 2 ^ 32 - 16"
    using malloc_inv [OF i that] by blast
  show "\<exists>s'. mm_free p s = Some s'" if "p \<in> L \<or> p = 0"
  proof (cases "p = 0")
    case True
    then show ?thesis by (simp add: mm_free_def)
  next
    case False
    then have "p \<in> used_slots s bs" using that L by simp
    from free_inv [OF i this] show ?thesis by blast
  qed
  show "\<exists>r s'. mm_realloc p sz s = Some (r, s')" if "p \<in> L \<or> p = 0" "unat sz \<le> 2 ^ 32 - 16"
    using realloc_inv [OF i _ that(2), of p] that(1) L by blast
qed





section \<open>Growth in place\<close>

lemma heap_grown_reached: "mm_realloc 4112 536 heap_one = Some (4112, heap_grown)"
  apply (simp add: heap_one_def fresh_heap_def ev)
  apply (subst coalesce.simps)
  apply (simp add: ev heap_grown_def heap_one_def fresh_heap_def)
  done



text \<open>At the limit the block that is returned is too small for the request: on \<open>heap_one\<close>
  the block grown in place for 536 bytes has 536 bytes with its header and footer, and
  the adjusted size of that request is 544.\<close>

lemma realloc_grown_short:
  "mm_realloc 4112 536 heap_one = Some (4112, heap_grown) \<and>
   unat (GET_SIZE heap_grown (HDRP 4112)) = 536 \<and> realloc_asize 536 = 544 \<and>
   FTRP heap_grown 4112 = 4112 + 528"
proof (intro conjI)
  show "mm_realloc 4112 536 heap_one = Some (4112, heap_grown)" by (rule heap_grown_reached)
  show "unat (GET_SIZE heap_grown (HDRP 4112)) = 536" "FTRP heap_grown 4112 = 4112 + 528"
    by (simp_all add: heap_grown_def heap_one_def fresh_heap_def macro_defs ld)
  show "realloc_asize 536 = 544" by (simp add: realloc_asize_def ALIGN_def)
qed

section \<open>Reallocation to size zero\<close>

text \<open>
  C7: on a heap reached by the operations, for a pointer \<open>p\<close> that is \<^verbatim>\<open>NULL\<close> or live,
  \<^verbatim>\<open>mm_realloc(p, 0)\<close> returns \<^verbatim>\<open>NULL\<close> and leaves the heap that \<^verbatim>\<open>mm_free(p)\<close> leaves, and
  \<^verbatim>\<open>mm_free\<close> does return. On \<^verbatim>\<open>NULL\<close> the heap is as it was. For a live \<open>p\<close>, the block is
  no longer live, and its bytes lie in a block \<open>a\<close> whose header has the allocated bit
  clear and which is in the free list; the heap is one reached by the operations, so
  that it has no two free neighbours (C1).
\<close>

theorem realloc_zero_is_free:
  assumes r: "reach s L" and p: "p \<in> L \<or> p = 0"
  shows "\<exists>s'. mm_free p s = Some s' \<and> mm_realloc p 0 s = Some (0, s') \<and> reach s' (L - {p}) \<and>
           (p = 0 \<longrightarrow> s' = s) \<and>
           (p \<noteq> 0 \<longrightarrow>
              (\<exists>a fl'. GET_ALLOC s' (HDRP a) = 0 \<and> a \<le> p \<and>
                 p + unat (GET_SIZE s (HDRP p)) \<le> a + unat (GET_SIZE s' (HDRP a)) \<and>
                 next_seg s' (dl_start s') fl' 0 \<and> a \<in> set fl'))"
proof (cases "p = 0")
  case True
  have f: "mm_free p s = Some s" using True by (simp add: mm_free_def)
  then have m: "mm_realloc p 0 s = Some (0, s)" by (simp add: mm_realloc_def)
  have "reach s (L - {p})" using reach.free [OF r p f] .
  then show ?thesis using f m True by simp
next
  case False
  from reach_inv [OF r] obtain bs fl where i: "heap_inv s bs fl" and L: "L = used_slots s bs"
    by blast
  have pin: "p \<in> used_slots s bs" using p False L by simp
  from free_inv [OF i pin]
  obtain s' bs' fl' a N where f: "mm_free p s = Some s'" and i': "heap_inv s' bs' fl'"
    and c: "(a, N, False) \<in> set (chain s' bs')" "a \<le> p" "p + unat (GET_SIZE s (HDRP p)) \<le> a + N"
    by blast
  note d' = heap_invD [OF i']
  have m: "mm_realloc p 0 s = Some (0, s')" using f by (simp add: mm_realloc_def)
  have re: "reach s' (L - {p})" by (rule reach.free [OF r p f])
  note rd = chain_read [OF d'(1) c(1)]
  have "a \<in> set fl'" using d'(3) c(1) by (auto simp: free_slots_def)
  moreover have "next_seg s' (dl_start s') fl' 0" by (rule list_ok_walk [OF d'(2)])
  ultimately show ?thesis using f m re False rd(3,5) c(2,3)
    by (intro exI [of _ s']) auto
qed

text \<open>On \<open>heap_one\<close>, \<^verbatim>\<open>mm_realloc(4112, 0)\<close> leaves \<open>heap_freed\<close>: the block at 4112 and the
  free block after it are one free block of 536 bytes, the only node of the free list.\<close>

theorem realloc_zero_is_free_witness:
  "reach heap_one {4112} \<and> mm_free 4112 heap_one = Some heap_freed \<and>
   mm_realloc 4112 0 heap_one = Some (0, heap_freed) \<and> reach heap_freed {} \<and>
   GET heap_freed (HDRP 4112) = 536 \<and> GET heap_freed (FTRP heap_freed 4112) = 536 \<and>
   next_seg heap_freed (dl_start heap_freed) [4112] 0"
proof -
  from realloc_zero_is_free [OF reach_heap_one, of 4112]
  obtain s' where s: "mm_free 4112 heap_one = Some s'" "mm_realloc 4112 0 heap_one = Some (0, s')"
    "reach s' ({4112} - {4112})" by auto
  have e: "s' = heap_freed" using s(1) heap_freed_reached by simp
  have g: "GET heap_freed (HDRP 4112) = 536" "GET heap_freed (FTRP heap_freed 4112) = 536"
    by (simp_all add: heap_freed_def heap_one_def fresh_heap_def macro_defs ld)
  have n: "next_seg heap_freed (dl_start heap_freed) [4112] 0"
    by (simp add: heap_freed_def heap_one_def fresh_heap_def get_next_def ld)
  show ?thesis using reach_heap_one s e g n by simp
qed

section \<open>Zeroed allocation on a reachable heap\<close>



end
